theory Spec2Isabelle
  imports Complex_Main "HOL-Library.AList" "HOL-Library.Sublist"
begin

section \<open>Characters and Python string primitives\<close>

text \<open>
  Python strings are sequences of code points. The model uses \<^typ>\<open>string\<close>, whose
  characters are the code points 0..255 (Latin-1); the classification functions below
  are Python's \<^verbatim>\<open>str.isspace\<close>, \<^verbatim>\<open>str.isalnum\<close> and \<^verbatim>\<open>str.lower\<close> on that range.
  The regular-expression class \<^verbatim>\<open>\s\<close>, \<^verbatim>\<open>str.strip()\<close> and \<^verbatim>\<open>str.split()\<close> all use the
  same whitespace set as \<^verbatim>\<open>str.isspace\<close>.
\<close>

definition isspace :: "char \<Rightarrow> bool" where
  "isspace c =
     (let n = (of_char c :: nat)
      in (9 \<le> n \<and> n \<le> 13) \<or> (28 \<le> n \<and> n \<le> 32) \<or> n = 133 \<or> n = 160)"

definition isalnum :: "char \<Rightarrow> bool" where
  "isalnum c =
     (let n = (of_char c :: nat)
      in (48 \<le> n \<and> n \<le> 57) \<or> (65 \<le> n \<and> n \<le> 90) \<or> (97 \<le> n \<and> n \<le> 122)
         \<or> n = 170 \<or> n = 178 \<or> n = 179 \<or> n = 181 \<or> n = 185 \<or> n = 186
         \<or> (188 \<le> n \<and> n \<le> 190) \<or> (192 \<le> n \<and> n \<le> 214)
         \<or> (216 \<le> n \<and> n \<le> 246) \<or> (248 \<le> n \<and> n \<le> 255))"

definition lower_char :: "char \<Rightarrow> char" where
  "lower_char c =
     (let n = (of_char c :: nat)
      in if (65 \<le> n \<and> n \<le> 90) \<or> (192 \<le> n \<and> n \<le> 214) \<or> (216 \<le> n \<and> n \<le> 222)
         then char_of (n + 32) else c)"

definition lower :: "string \<Rightarrow> string" where
  "lower s = map lower_char s"

definition lstrip :: "string \<Rightarrow> string" where
  "lstrip s = dropWhile isspace s"

definition rstrip :: "string \<Rightarrow> string" where
  "rstrip s = rev (dropWhile isspace (rev s))"

text \<open>\<^verbatim>\<open>s.strip()\<close>: whitespace removed from both ends.\<close>

definition strip :: "string \<Rightarrow> string" where
  "strip s = rstrip (lstrip s)"

text \<open>\<^verbatim>\<open>sep.join(parts)\<close>.\<close>

fun join :: "string \<Rightarrow> string list \<Rightarrow> string" where
  "join sep [] = []"
| "join sep [x] = x"
| "join sep (x # y # ys) = x @ sep @ join sep (y # ys)"

text \<open>
  \<^verbatim>\<open>text[a:b]\<close> for arbitrary integers: a negative index counts from the end, and both
  indices are clamped to the string.
\<close>

definition slice_index :: "nat \<Rightarrow> int \<Rightarrow> nat" where
  "slice_index n i = (if i < 0 then nat (max 0 (int n + i)) else min n (nat i))"

definition slice :: "'a list \<Rightarrow> int \<Rightarrow> int \<Rightarrow> 'a list" where
  "slice xs a b =
     (let n = length xs; lo = slice_index n a; hi = slice_index n b
      in take (hi - lo) (drop lo xs))"

section \<open>Chunk validation (utils/chunking.py)\<close>

definition validate_chunk :: "string \<Rightarrow> int \<Rightarrow> bool" where
  "validate_chunk chunk min_length =
     (if chunk = [] \<or> strip chunk = [] then False
      else if int (length (strip chunk)) < min_length then False
      else if int (length (filter isalnum chunk)) < min_length div 2 then False
      else True)"

section \<open>The in-memory store (storage/in\_memory\_store.py)\<close>

record DocChunk =
  doc_id :: string
  doc_name :: string
  chunk_id :: int
  text_str :: string

text \<open>
  Both dictionaries are association lists in insertion order, which is the order
  Python's \<^verbatim>\<open>dict\<close> iterates in: assigning to a present key keeps its position,
  assigning to a new key appends, \<^verbatim>\<open>pop(k, None)\<close> removes the key if present.
\<close>

record InMemoryStore =
  docs :: "(string \<times> string) list"
  chunks :: "(string \<times> DocChunk list) list"

definition init_store :: InMemoryStore where
  "init_store = \<lparr>docs = [], chunks = []\<rparr>"

definition upsert_doc :: "string \<Rightarrow> string \<Rightarrow> DocChunk list \<Rightarrow> InMemoryStore \<Rightarrow> InMemoryStore" where
  "upsert_doc did name cs s =
     \<lparr>docs = AList.update did name (docs s), chunks = AList.update did cs (chunks s)\<rparr>"

definition remove_doc :: "string \<Rightarrow> InMemoryStore \<Rightarrow> InMemoryStore" where
  "remove_doc did s =
     \<lparr>docs = AList.delete did (docs s), chunks = AList.delete did (chunks s)\<rparr>"

definition list_docs :: "InMemoryStore \<Rightarrow> (string \<times> string) list" where
  "list_docs s = docs s"

definition get_chunks :: "InMemoryStore \<Rightarrow> string \<Rightarrow> DocChunk list" where
  "get_chunks s did = (case map_of (chunks s) did of None \<Rightarrow> [] | Some cs \<Rightarrow> cs)"

definition get_total_chunks :: "InMemoryStore \<Rightarrow> nat" where
  "get_total_chunks s = sum_list (map (\<lambda>(did, cs). length cs) (chunks s))"

text \<open>
  \<^verbatim>\<open>get_memory_usage_mb\<close> sums \<^verbatim>\<open>sys.getsizeof(chunk.text)\<close> over all stored chunks and
  divides by \<^verbatim>\<open>1024 * 1024\<close>; the interpreter's size function is a parameter and the
  result is kept in bytes.
\<close>

definition get_memory_usage_bytes :: "(string \<Rightarrow> nat) \<Rightarrow> InMemoryStore \<Rightarrow> nat" where
  "get_memory_usage_bytes getsizeof s =
     sum_list (map (\<lambda>(did, cs). sum_list (map (\<lambda>c. getsizeof (text_str c)) cs)) (chunks s))"

record Statistics =
  total_docs :: nat
  total_chunks :: nat
  memory_bytes :: nat
  per_doc :: "(string \<times> string \<times> nat) list"

definition get_statistics :: "(string \<Rightarrow> nat) \<Rightarrow> InMemoryStore \<Rightarrow> Statistics" where
  "get_statistics getsizeof s =
     \<lparr>total_docs = length (docs s),
      total_chunks = get_total_chunks s,
      memory_bytes = get_memory_usage_bytes getsizeof s,
      per_doc = map (\<lambda>(did, name). (did, name, length (get_chunks s did))) (docs s)\<rparr>"

text \<open>One call on the store; the five read-only methods return a value and leave
  the two dictionaries as they are.\<close>

datatype store_op =
    UpsertDoc string string "DocChunk list"
  | RemoveDoc string
  | GetChunks string
  | ListDocs
  | GetTotalChunks
  | GetMemoryUsageMb
  | GetStatistics

fun exec_op :: "InMemoryStore \<Rightarrow> store_op \<Rightarrow> InMemoryStore" where
  "exec_op s (UpsertDoc did name cs) = upsert_doc did name cs s"
| "exec_op s (RemoveDoc did) = remove_doc did s"
| "exec_op s (GetChunks did) = s"
| "exec_op s ListDocs = s"
| "exec_op s GetTotalChunks = s"
| "exec_op s GetMemoryUsageMb = s"
| "exec_op s GetStatistics = s"

definition run_ops :: "store_op list \<Rightarrow> InMemoryStore" where
  "run_ops ops = foldl exec_op init_store ops"

section \<open>Text normalisation (utils/text\_clean.py)\<close>

text \<open>
  \<^verbatim>\<open>re.sub(r"[ \t]+", " ", text)\<close> replaces every maximal run of spaces and tabs by one
  space; \<^verbatim>\<open>re.sub(r"\n{3,}", "\n\n", text)\<close> replaces every maximal run of three or more
  newlines by two.
\<close>

definition is_hspace :: "char \<Rightarrow> bool" where
  "is_hspace c = (c = CHR '' '' \<or> c = CHR 0x09)"

function sub_hspace :: "string \<Rightarrow> string" where
  "sub_hspace [] = []"
| "sub_hspace (c # cs) =
     (if is_hspace c then CHR '' '' # sub_hspace (dropWhile is_hspace cs)
      else c # sub_hspace cs)"
  by pat_completeness auto
termination
  by (relation "measure length") (auto simp: less_Suc_eq_le length_dropWhile_le)

function sub_newlines :: "string \<Rightarrow> string" where
  "sub_newlines [] = []"
| "sub_newlines (c # cs) =
     (if c = CHR 0x0A
      then (let run = takeWhile (\<lambda>d. d = CHR 0x0A) cs;
                rest = dropWhile (\<lambda>d. d = CHR 0x0A) cs
            in (if 2 \<le> length run then [CHR 0x0A, CHR 0x0A] else CHR 0x0A # run)
               @ sub_newlines rest)
      else c # sub_newlines cs)"
  by pat_completeness auto
termination
  by (relation "measure length") (auto simp: less_Suc_eq_le length_dropWhile_le)

definition clean_text :: "string \<Rightarrow> string" where
  "clean_text t = (if t = [] then [] else strip (sub_newlines (sub_hspace t)))"

text \<open>Normal forms of the two substitutions: no tab and no space followed by a space
  or tab; no three newlines in a row.\<close>

fun hs_ok :: "string \<Rightarrow> bool" where
  "hs_ok [] = True"
| "hs_ok (c # cs) =
     (c \<noteq> CHR 0x09 \<and> (c = CHR '' '' \<longrightarrow> cs = [] \<or> \<not> is_hspace (hd cs)) \<and> hs_ok cs)"

fun nl_ok :: "string \<Rightarrow> bool" where
  "nl_ok [] = True"
| "nl_ok (c # cs) = (\<not> (c = CHR 0x0A \<and> take 2 cs = [CHR 0x0A, CHR 0x0A]) \<and> nl_ok cs)"

section \<open>Retrieval (services/retrieval\_service.py)\<close>

text \<open>\<^verbatim>\<open>s.split()\<close>: the maximal runs of non-whitespace characters, in order.\<close>

fun split_acc :: "string \<Rightarrow> string \<Rightarrow> string list" where
  "split_acc cur [] = (if cur = [] then [] else [cur])"
| "split_acc cur (c # cs) =
     (if isspace c then (if cur = [] then [] else [cur]) @ split_acc [] cs
      else split_acc (cur @ [c]) cs)"

definition split_ws :: "string \<Rightarrow> string list" where
  "split_ws s = split_acc [] s"

text \<open>\<^verbatim>\<open>w in text_lower\<close>: \<open>w\<close> occurs in the text as a contiguous substring.\<close>

fun contains :: "string \<Rightarrow> string \<Rightarrow> bool" where
  "contains w [] = (w = [])"
| "contains w (c # cs) = (prefix w (c # cs) \<or> contains w cs)"

text \<open>The score is a float that starts at \<^verbatim>\<open>0.0\<close> and only ever grows by \<^verbatim>\<open>1.0\<close>; such a
  value is an exact natural number, and the model keeps it as one.\<close>

definition score_chunk_optimized :: "string list \<Rightarrow> string \<Rightarrow> nat" where
  "score_chunk_optimized query_tokens text_lower =
     foldl (\<lambda>score w. if contains w text_lower then score + 1 else score) 0 query_tokens"

definition query_tokens_of :: "string \<Rightarrow> string list" where
  "query_tokens_of query = filter (\<lambda>w. 2 < length w) (split_ws (lower query))"

fun score_chunks :: "string list \<Rightarrow> DocChunk list \<Rightarrow> (DocChunk \<times> nat) list" where
  "score_chunks toks [] = []"
| "score_chunks toks (ch # chs) =
     (let s = score_chunk_optimized toks (lower (text_str ch))
      in (if 0 < s then [(ch, s)] else []) @ score_chunks toks chs)"

text \<open>\<^verbatim>\<open>scored.sort(key=lambda x: x[1], reverse=True)\<close>: Python's sort is stable, also
  with \<^verbatim>\<open>reverse=True\<close>; a stable descending sort is a stable ascending sort on the
  negated key.\<close>

definition sort_by_score_desc :: "(DocChunk \<times> nat) list \<Rightarrow> (DocChunk \<times> nat) list" where
  "sort_by_score_desc scored = sort_key (\<lambda>x. - int (snd x)) scored"

text \<open>\<^verbatim>\<open>scored[:top_k]\<close> is the slice from 0 to \<^verbatim>\<open>top_k\<close>.\<close>

definition retrieve_top_k :: "string \<Rightarrow> DocChunk list \<Rightarrow> int \<Rightarrow> (DocChunk \<times> nat) list" where
  "retrieve_top_k query all_chunks top_k =
     (let query_tokens = query_tokens_of query
      in if query_tokens = [] then []
         else slice (sort_by_score_desc (score_chunks query_tokens all_chunks)) 0 top_k)"

text \<open>The score the retriever gives one chunk for a query.\<close>

definition chunk_score :: "string \<Rightarrow> DocChunk \<Rightarrow> nat" where
  "chunk_score query ch = score_chunk_optimized (query_tokens_of query) (lower (text_str ch))"

text \<open>A chunk of a one-document store, for the concrete examples.\<close>

definition mk_chunk :: "string \<Rightarrow> int \<Rightarrow> string \<Rightarrow> DocChunk" where
  "mk_chunk d i t = \<lparr>doc_id = d, doc_name = d, chunk_id = i, text_str = t\<rparr>"

section \<open>PDF extraction (loaders/pdf\_loader.py)\<close>

text \<open>
  The PDF library is outside the repository; the model takes what it delivers as input.
  Opening the reader either raises \<^verbatim>\<open>PdfReadError\<close>, raises something else, or gives the
  pages. For one page, \<^verbatim>\<open>reader.pages[i]\<close> may raise, and \<^verbatim>\<open>page.extract_text()\<close> returns
  a string, returns \<^verbatim>\<open>None\<close> or raises.
\<close>

datatype page = Extracts string | ExtractsNone | ExtractRaises | AccessRaises

datatype pdf_reader = PdfReadError | ReaderRaises | Reader "page list"

record pdf_file =
  size_bytes :: nat
  reader :: pdf_reader

text \<open>
  The errors \<^verbatim>\<open>read_pdf_bytes\<close> can raise: the two \<^verbatim>\<open>FileValidationError\<close>s of
  \<^verbatim>\<open>validate_file_size\<close>, and one \<^verbatim>\<open>PDFProcessingError\<close> for each message.
\<close>

datatype pdf_error =
    FileTooLarge | FileEmpty
  | CorruptedPdf | UnableToRead | NoPagesToProcess | NoTextExtracted | NoMeaningfulText
  | UnexpectedError

text \<open>What \<^verbatim>\<open>log_error\<close> is called with, and the two lists the page loop builds.\<close>

datatype log_entry = PageError nat | CallbackError

record extraction =
  text_parts :: "string list"
  failed_pages :: "nat list"
  logged :: "log_entry list"

definition validate_file_size :: "nat \<Rightarrow> real \<Rightarrow> pdf_error + unit" where
  "validate_file_size sz max_size_mb =
     (let size_mb = real sz / (1024 * 1024)
      in if size_mb > max_size_mb then Inl FileTooLarge
         else if size_mb = 0 then Inl FileEmpty
         else Inr ())"

text \<open>
  \<^verbatim>\<open>validate_pdf_integrity\<close>: the error raised for a reader with no pages is raised inside
  the \<^verbatim>\<open>try\<close> block and is re-raised by its \<^verbatim>\<open>except Exception\<close> handler as
  \<^verbatim>\<open>Unable to read PDF\<close>.
\<close>

definition validate_pdf_integrity :: "pdf_reader \<Rightarrow> pdf_error + unit" where
  "validate_pdf_integrity r =
     (case r of
        PdfReadError \<Rightarrow> Inl CorruptedPdf
      | ReaderRaises \<Rightarrow> Inl UnableToRead
      | Reader pages \<Rightarrow> if length pages = 0 then Inl UnableToRead else Inr ())"

fun extract_text_from_page :: "page \<Rightarrow> nat \<Rightarrow> string \<times> log_entry list" where
  "extract_text_from_page (Extracts t) page_num = (if t \<noteq> [] then t else [], [])"
| "extract_text_from_page ExtractsNone page_num = ([], [])"
| "extract_text_from_page ExtractRaises page_num = ([], [PageError (page_num + 1)])"
| "extract_text_from_page AccessRaises page_num = ([], [PageError (page_num + 1)])"

text \<open>
  The body of the page loop. A failing page access, and the \<^verbatim>\<open>ZeroDivisionError\<close> of
  \<^verbatim>\<open>(page_num + 1) % batch_size\<close> when \<^verbatim>\<open>batch_size\<close> is 0, reach the loop's
  \<^verbatim>\<open>except Exception\<close> handler, which records the page as failed and continues. The
  progress callback is given as the predicate "this call raises"; its exception is caught
  and logged.
\<close>

definition process_page ::
  "(nat \<Rightarrow> nat \<Rightarrow> bool) option \<Rightarrow> int \<Rightarrow> nat \<Rightarrow> nat \<Rightarrow> page \<Rightarrow> extraction \<Rightarrow> extraction" where
  "process_page progress_callback batch_size pages_to_process page_num pg st =
     (if pg = AccessRaises
      then st\<lparr>failed_pages := failed_pages st @ [page_num + 1],
              logged := logged st @ [PageError (page_num + 1)]\<rparr>
      else
        let (page_text, lg) = extract_text_from_page pg page_num;
            st1 = st\<lparr>logged := logged st @ lg\<rparr>;
            st2 = (if page_text \<noteq> [] \<and> strip page_text \<noteq> []
                   then st1\<lparr>text_parts := text_parts st1 @ [page_text]\<rparr>
                   else st1\<lparr>failed_pages := failed_pages st1 @ [page_num + 1]\<rparr>);
            st3 = (case progress_callback of
                     None \<Rightarrow> st2
                   | Some cb \<Rightarrow>
                       if cb (page_num + 1) pages_to_process
                       then st2\<lparr>logged := logged st2 @ [CallbackError]\<rparr>
                       else st2)
        in if batch_size = 0
           then st3\<lparr>failed_pages := failed_pages st3 @ [page_num + 1],
                    logged := logged st3 @ [PageError (page_num + 1)]\<rparr>
           else st3)"

fun process_pages ::
  "(nat \<Rightarrow> nat \<Rightarrow> bool) option \<Rightarrow> int \<Rightarrow> nat \<Rightarrow> nat \<Rightarrow> page list \<Rightarrow> extraction \<Rightarrow> extraction" where
  "process_pages cb bs n page_num [] st = st"
| "process_pages cb bs n page_num (pg # pgs) st =
     process_pages cb bs n (Suc page_num) pgs (process_page cb bs n page_num pg st)"

text \<open>Lines 153 to 181: what happens to the collected parts after the loop.\<close>

definition finish_extraction :: "string list \<Rightarrow> pdf_error + string" where
  "finish_extraction parts =
     (if parts = [] then Inl NoTextExtracted
      else
        let full_text = join [CHR 0x0A, CHR 0x0A] parts;
            cleaned_text = clean_text full_text
        in if cleaned_text = [] \<or> length (strip cleaned_text) < 10
           then Inl NoMeaningfulText
           else Inr cleaned_text)"

text \<open>\<^verbatim>\<open>min(total_pages, max_pages) if max_pages else total_pages\<close>: \<^verbatim>\<open>None\<close> and 0 are
  both false.\<close>

definition pages_to_process_of :: "int \<Rightarrow> int option \<Rightarrow> int" where
  "pages_to_process_of total_pages max_pages =
     (case max_pages of
        None \<Rightarrow> total_pages
      | Some m \<Rightarrow> if m \<noteq> 0 then min total_pages m else total_pages)"

definition read_pdf_bytes ::
  "pdf_file \<Rightarrow> real \<Rightarrow> int option \<Rightarrow> (nat \<Rightarrow> nat \<Rightarrow> bool) option \<Rightarrow> int \<Rightarrow> pdf_error + string" where
  "read_pdf_bytes file_obj max_size_mb max_pages progress_callback batch_size =
     (case validate_file_size (size_bytes file_obj) max_size_mb of
        Inl e \<Rightarrow> Inl e
      | Inr _ \<Rightarrow>
     (case validate_pdf_integrity (reader file_obj) of
        Inl e \<Rightarrow> Inl e
      | Inr _ \<Rightarrow>
     (case reader file_obj of
        Reader pages \<Rightarrow>
          let total_pages = int (length pages);
              pages_to_process = pages_to_process_of total_pages max_pages
          in if pages_to_process = 0 then Inl NoPagesToProcess
             else
               let st = process_pages progress_callback batch_size (nat pages_to_process) 0
                          (take (nat pages_to_process) pages)
                          \<lparr>text_parts = [], failed_pages = [], logged = []\<rparr>
               in finish_extraction (text_parts st)
      | _ \<Rightarrow> Inl UnexpectedError)))"

text \<open>The texts of the pages whose extraction gives text that is not only whitespace,
  in page order.\<close>

fun successful_page_texts :: "page list \<Rightarrow> string list" where
  "successful_page_texts [] = []"
| "successful_page_texts (Extracts t # pgs) =
     (if strip t \<noteq> [] then t # successful_page_texts pgs else successful_page_texts pgs)"
| "successful_page_texts (_ # pgs) = successful_page_texts pgs"

text \<open>A ten-page document whose pages 3 and 7 fail.\<close>

definition ten_pages :: "page list" where
  "ten_pages = [Extracts ''p1'', Extracts ''p2'', ExtractRaises, Extracts ''p4'', Extracts ''p5'',
                Extracts ''p6'', AccessRaises, Extracts ''p8'', Extracts ''p9'', Extracts ''p10'']"

section \<open>Chunking (utils/chunking.py)\<close>

text \<open>
  \<^verbatim>\<open>sentence_endings = re.compile(r'([.!?]+[\s\n]+)')\<close>: a match is a maximal run of
  \<^verbatim>\<open>.\<close>, \<^verbatim>\<open>!\<close>, \<^verbatim>\<open>?\<close> followed by a maximal, non-empty run of whitespace. The two
  classes are disjoint, so a run of punctuation that is not followed by whitespace holds
  no match at all.
\<close>

definition is_sentence_end :: "char \<Rightarrow> bool" where
  "is_sentence_end c = (c = CHR ''.'' \<or> c = CHR ''!'' \<or> c = CHR ''?'')"

text \<open>
  \<^verbatim>\<open>sentence_endings.split(text)\<close>: the pieces between the matches, each followed by the
  match itself (the pattern has one capturing group), and the rest after the last match.
  The first argument is the piece being read.
\<close>

function re_split :: "string \<Rightarrow> string \<Rightarrow> string list" where
  "re_split cur [] = [cur]"
| "re_split cur (c # cs) =
     (if is_sentence_end c
      then (let punct = c # takeWhile is_sentence_end cs;
                rest = dropWhile is_sentence_end cs;
                ws = takeWhile isspace rest
            in if ws \<noteq> [] then cur # (punct @ ws) # re_split [] (dropWhile isspace rest)
               else re_split (cur @ punct) rest)
      else re_split (cur @ [c]) cs)"
  by pat_completeness auto
termination
proof (relation "measure (\<lambda>(cur, s). length s)")
  fix cur :: string and c :: char and cs x xa xb
  assume "xa = dropWhile is_sentence_end cs"
  then have "length xa \<le> length cs" by (simp add: length_dropWhile_le)
  moreover have "length (dropWhile isspace xa) \<le> length xa" by (rule length_dropWhile_le)
  ultimately show "((([], dropWhile isspace xa)), (cur, c # cs)) \<in> measure (\<lambda>(cur, s). length s)"
    by simp
next
  fix cur :: string and c :: char and cs x xa xb
  assume "xa = dropWhile is_sentence_end cs"
  then have "length xa \<le> length cs" by (simp add: length_dropWhile_le)
  then show "((cur @ x, xa), (cur, c # cs)) \<in> measure (\<lambda>(cur, s). length s)"
    by simp
qed simp_all

text \<open>\<^verbatim>\<open>sentence_endings.search(s)\<close> finds a match somewhere in \<open>s\<close>.\<close>

fun re_search :: "string \<Rightarrow> bool" where
  "re_search [] = False"
| "re_search (c # cs) =
     ((is_sentence_end c
        \<and> (case dropWhile is_sentence_end cs of [] \<Rightarrow> False | d # _ \<Rightarrow> isspace d))
      \<or> re_search cs)"

text \<open>The loop \<^verbatim>\<open>for i in range(0, len(sentences) - 1, 2)\<close> of
  \<^verbatim>\<open>split_into_sentences\<close>.\<close>

fun recombine :: "string list \<Rightarrow> string list" where
  "recombine (a # b # rest) =
     (let sentence = a @ b
      in (if strip sentence \<noteq> [] then [strip sentence] else []) @ recombine rest)"
| "recombine _ = []"

definition split_into_sentences :: "string \<Rightarrow> string list" where
  "split_into_sentences txt =
     (let sentences = re_split [] txt;
          result = recombine sentences;
          result = (if sentences \<noteq> [] \<and> \<not> re_search (last sentences)
                    then (if strip (last sentences) \<noteq> []
                          then result @ [strip (last sentences)] else result)
                    else result)
      in if result \<noteq> [] then result else [txt])"

text \<open>The loop \<^verbatim>\<open>for s in reversed(current_chunk)\<close>, called on the reversed list with
  no sentence kept yet.\<close>

fun overlap_scan :: "string list \<Rightarrow> int \<Rightarrow> string list \<Rightarrow> int \<Rightarrow> string list \<times> int" where
  "overlap_scan [] overlap overlap_sentences overlap_size = (overlap_sentences, overlap_size)"
| "overlap_scan (s # rest) overlap overlap_sentences overlap_size =
     (if overlap_size + int (length s) \<le> overlap
      then overlap_scan rest overlap (s # overlap_sentences) (overlap_size + int (length s))
      else (overlap_sentences, overlap_size))"

text \<open>\<^verbatim>\<open>if chunk.strip(): yield chunk.strip()\<close>, the way every chunk of the two modes is
  yielded.\<close>

definition emit :: "string \<Rightarrow> string list" where
  "emit chunk = (if strip chunk \<noteq> [] then [strip chunk] else [])"

text \<open>The sentence loop and the final chunk after it: the chunks yielded, in order.\<close>

fun sentence_chunks :: "string list \<Rightarrow> int \<Rightarrow> int \<Rightarrow> string list \<Rightarrow> int \<Rightarrow> string list" where
  "sentence_chunks [] chunk_size overlap current_chunk current_size =
     (if current_chunk \<noteq> [] then emit (join '' '' current_chunk) else [])"
| "sentence_chunks (sentence # rest) chunk_size overlap current_chunk current_size =
     (let sentence_len = int (length sentence)
      in if current_size + sentence_len > chunk_size \<and> current_chunk \<noteq> []
         then
           let overlap_text = join '' '' current_chunk;
               (cc, sz) = (if int (length overlap_text) > overlap
                           then overlap_scan (rev current_chunk) overlap [] 0
                           else ([], 0))
           in emit overlap_text
              @ sentence_chunks rest chunk_size overlap (cc @ [sentence]) (sz + sentence_len)
         else sentence_chunks rest chunk_size overlap
                (current_chunk @ [sentence]) (current_size + sentence_len))"

text \<open>
  The \<^verbatim>\<open>while start < n\<close> loop of the character fallback. The generator may yield
  forever, so the model is given a number of loop iterations it may run: the result is
  the list of chunks yielded within that many iterations, and whether the generator is
  exhausted by then.
\<close>

fun char_chunks :: "nat \<Rightarrow> string \<Rightarrow> int \<Rightarrow> int \<Rightarrow> int \<Rightarrow> string list \<times> bool" where
  "char_chunks 0 txt chunk_size overlap start = ([], \<not> start < int (length txt))"
| "char_chunks (Suc fuel) txt chunk_size overlap start =
     (let n = int (length txt)
      in if \<not> start < n then ([], True)
         else
           let end = min n (start + chunk_size);
               out = emit (slice txt start end);
               start = end - overlap;
               start = (if start < 0 then 0 else start)
           in if start \<ge> n then (out, True)
              else (let (more, done) = char_chunks fuel txt chunk_size overlap start
                    in (out @ more, done)))"

text \<open>\<^verbatim>\<open>chunk_text\<close>; the first argument only bounds the character loop.\<close>

definition chunk_text :: "nat \<Rightarrow> string \<Rightarrow> int \<Rightarrow> int \<Rightarrow> bool \<Rightarrow> string list \<times> bool" where
  "chunk_text fuel txt chunk_size overlap sentence_aware =
     (if chunk_size \<le> 0 then ([txt], True)
      else
        let overlap = (if overlap \<ge> chunk_size then max 0 (chunk_size div 3) else overlap)
        in if sentence_aware \<and> int (length txt) < chunk_size * 100
           then (sentence_chunks (split_into_sentences txt) chunk_size overlap [] 0, True)
           else char_chunks fuel txt chunk_size overlap 0)"

text \<open>The length of the longest sentence \<^verbatim>\<open>split_into_sentences\<close> finds in a text.\<close>

definition longest_sentence :: "string \<Rightarrow> nat" where
  "longest_sentence txt = foldr max (map length (split_into_sentences txt)) 0"

section \<open>Properties of the string primitives\<close>

lemma strip_empty_iff: "strip s = [] \<longleftrightarrow> list_all isspace s"
proof -
  have "strip s = [] \<longleftrightarrow> dropWhile isspace (rev (dropWhile isspace s)) = []"
    by (simp add: strip_def rstrip_def lstrip_def)
  also have "\<dots> \<longleftrightarrow> (\<forall>c \<in> set (dropWhile isspace s). isspace c)"
    by (simp add: dropWhile_eq_Nil_conv)
  also have "\<dots> \<longleftrightarrow> dropWhile isspace s = []"
  proof
    assume a: "\<forall>c \<in> set (dropWhile isspace s). isspace c"
    show "dropWhile isspace s = []"
    proof (cases "dropWhile isspace s")
      case Nil
      then show ?thesis .
    next
      case (Cons d ds)
      then have "\<not> isspace d"
        using hd_dropWhile [of isspace s] by simp
      moreover have "isspace d"
        using a Cons by simp
      ultimately show ?thesis by simp
    qed
  next
    assume e: "dropWhile isspace s = []"
    show "\<forall>c \<in> set (dropWhile isspace s). isspace c"
      unfolding e by simp
  qed
  also have "\<dots> \<longleftrightarrow> list_all isspace s"
    by (simp add: dropWhile_eq_Nil_conv list_all_iff)
  finally show ?thesis .
qed

lemma length_strip_le: "length (strip s) \<le> length s"
proof -
  have "length (strip s) \<le> length (dropWhile isspace s)"
    unfolding strip_def rstrip_def lstrip_def
    using length_dropWhile_le [of isspace "rev (dropWhile isspace s)"] by simp
  also have "\<dots> \<le> length s"
    by (rule length_dropWhile_le)
  finally show ?thesis .
qed

section \<open>Text normalisation is idempotent\<close>

lemma dropWhile_head: "dropWhile P xs = [] \<or> \<not> P (hd (dropWhile P xs))"
  using hd_dropWhile [of P xs] by blast

lemma dropWhile_keep: "xs \<noteq> [] \<Longrightarrow> \<not> P (hd xs) \<Longrightarrow> dropWhile P xs = xs"
  by (cases xs) auto

lemma last_dropWhile: "dropWhile P xs \<noteq> [] \<Longrightarrow> last (dropWhile P xs) = last xs"
  by (induction xs) (auto split: if_splits)

lemma hs_ok_sub_hspace: "hs_ok (sub_hspace xs)"
proof (induction xs rule: sub_hspace.induct)
  case 1
  then show ?case by simp
next
  case (2 c cs)
  show ?case
  proof (cases "is_hspace c")
    case True
    let ?r = "dropWhile is_hspace cs"
    have "sub_hspace ?r = [] \<or> \<not> is_hspace (hd (sub_hspace ?r))"
    proof (cases ?r)
      case Nil
      show ?thesis unfolding Nil by simp
    next
      case (Cons d ds)
      have "\<not> is_hspace d"
        using dropWhile_head [of is_hspace cs] unfolding Cons by simp
      then show ?thesis unfolding Cons by simp
    qed
    then show ?thesis using True 2 by simp
  next
    case False
    then have "c \<noteq> CHR 0x09" "c \<noteq> CHR '' ''" by (auto simp: is_hspace_def)
    then show ?thesis using False 2 by simp
  qed
qed

lemma sub_hspace_id: "hs_ok xs \<Longrightarrow> sub_hspace xs = xs"
proof (induction xs)
  case Nil
  then show ?case by simp
next
  case (Cons c cs)
  show ?case
  proof (cases "is_hspace c")
    case True
    then have c: "c = CHR '' ''" using Cons.prems by (auto simp: is_hspace_def)
    have "dropWhile is_hspace cs = cs"
      using Cons.prems c by (cases cs) auto
    then show ?thesis using Cons c True by simp
  next
    case False
    then show ?thesis using Cons by simp
  qed
qed

lemma hs_ok_dropWhile: "hs_ok xs \<Longrightarrow> hs_ok (dropWhile P xs)"
  by (induction xs) auto

lemma hs_ok_append_left: "hs_ok (xs @ ys) \<Longrightarrow> hs_ok xs"
  by (induction xs) auto

lemma hs_ok_prepend: "\<forall>c \<in> set pre. \<not> is_hspace c \<Longrightarrow> hs_ok zs \<Longrightarrow> hs_ok (pre @ zs)"
  by (induction pre) (auto simp: is_hspace_def)

lemma sub_newlines_Nil_iff: "sub_newlines xs = [] \<longleftrightarrow> xs = []"
  by (cases xs) (auto simp: Let_def)

lemma hd_sub_newlines: "hd (sub_newlines xs) = hd xs"
  by (cases xs) (auto simp: Let_def)

lemma hs_ok_sub_newlines: "hs_ok xs \<Longrightarrow> hs_ok (sub_newlines xs)"
proof (induction xs rule: sub_newlines.induct)
  case 1
  then show ?case by simp
next
  case (2 c cs)
  show ?case
  proof (cases "c = CHR 0x0A")
    case True
    let ?run = "takeWhile (\<lambda>d. d = CHR 0x0A) cs"
    let ?rest = "dropWhile (\<lambda>d. d = CHR 0x0A) cs"
    let ?pre = "if 2 \<le> length ?run then [CHR 0x0A, CHR 0x0A] else CHR 0x0A # ?run"
    have "hs_ok ?rest" using "2.prems" by (simp add: hs_ok_dropWhile)
    then have "hs_ok (sub_newlines ?rest)" using "2.IH"(1) True by simp
    moreover have "\<forall>d \<in> set ?pre. \<not> is_hspace d"
      by (auto simp: is_hspace_def dest: set_takeWhileD)
    ultimately have "hs_ok (?pre @ sub_newlines ?rest)" by (rule hs_ok_prepend [rotated])
    then show ?thesis using True by (simp add: Let_def)
  next
    case False
    then show ?thesis using 2 by (auto simp: sub_newlines_Nil_iff hd_sub_newlines)
  qed
qed

lemma nl_ok_dropWhile: "nl_ok xs \<Longrightarrow> nl_ok (dropWhile P xs)"
  by (induction xs) auto

lemma nl_ok_append_left: "nl_ok (xs @ ys) \<Longrightarrow> nl_ok xs"
proof (induction xs)
  case Nil
  then show ?case by simp
next
  case (Cons c cs)
  have "take 2 cs = [CHR 0x0A, CHR 0x0A] \<Longrightarrow> take 2 (cs @ ys) = [CHR 0x0A, CHR 0x0A]"
    by (cases cs; cases "tl cs") auto
  then show ?case using Cons by auto
qed

lemma nl_ok_short_prefix:
  assumes "nl_ok zs" "zs = [] \<or> hd zs \<noteq> CHR 0x0A"
  shows "nl_ok (CHR 0x0A # zs)" "nl_ok (CHR 0x0A # CHR 0x0A # zs)"
  using assms by (cases zs; auto)+

lemma nl_ok_sub_newlines: "nl_ok (sub_newlines xs)"
proof (induction xs rule: sub_newlines.induct)
  case 1
  then show ?case by simp
next
  case (2 c cs)
  show ?case
  proof (cases "c = CHR 0x0A")
    case True
    let ?run = "takeWhile (\<lambda>d. d = CHR 0x0A) cs"
    let ?rest = "dropWhile (\<lambda>d. d = CHR 0x0A) cs"
    let ?z = "sub_newlines ?rest"
    have ih: "nl_ok ?z" using "2.IH"(1) True by simp
    have hd: "?z = [] \<or> hd ?z \<noteq> CHR 0x0A"
      using dropWhile_head [of "\<lambda>d. d = CHR 0x0A" cs]
      by (simp only: sub_newlines_Nil_iff hd_sub_newlines)
    have run: "length ?run < 2 \<Longrightarrow> ?run = [] \<or> ?run = [CHR 0x0A]"
    proof -
      assume l: "length ?run < 2"
      have "\<forall>d \<in> set ?run. d = CHR 0x0A" by (auto dest: set_takeWhileD)
      then show ?thesis using l by (cases ?run; cases "tl ?run") auto
    qed
    show ?thesis
    proof (cases "2 \<le> length ?run")
      case t: True
      then show ?thesis using True nl_ok_short_prefix(2) [OF ih hd] by (simp add: Let_def)
    next
      case f: False
      then have "?run = [] \<or> ?run = [CHR 0x0A]" using run by simp
      then show ?thesis
        using True f nl_ok_short_prefix [OF ih hd] by (auto simp: Let_def)
    qed
  next
    case False
    then show ?thesis using 2 by simp
  qed
qed

lemma sub_newlines_id: "nl_ok xs \<Longrightarrow> sub_newlines xs = xs"
proof (induction xs rule: sub_newlines.induct)
  case 1
  then show ?case by simp
next
  case (2 c cs)
  show ?case
  proof (cases "c = CHR 0x0A")
    case True
    let ?run = "takeWhile (\<lambda>d. d = CHR 0x0A) cs"
    let ?rest = "dropWhile (\<lambda>d. d = CHR 0x0A) cs"
    have all: "\<forall>d \<in> set ?run. d = CHR 0x0A" by (auto dest: set_takeWhileD)
    have "nl_ok cs" using "2.prems" by simp
    then have "nl_ok ?rest" by (rule nl_ok_dropWhile)
    then have r: "sub_newlines ?rest = ?rest" using "2.IH"(1) True by simp
    have n2: "take 2 cs \<noteq> [CHR 0x0A, CHR 0x0A]" using "2.prems" True by simp
    have "\<not> 2 \<le> length ?run"
    proof
      assume l: "2 \<le> length ?run"
      then obtain a b r where run: "?run = a # b # r"
        by (cases ?run; cases "tl ?run") auto
      then have ab: "a = CHR 0x0A" "b = CHR 0x0A" using all by auto
      have "cs = ?run @ ?rest" by simp
      then have "take 2 cs = take 2 (?run @ ?rest)" by simp
      also have "\<dots> = [CHR 0x0A, CHR 0x0A]" unfolding run ab by simp
      finally show False using n2 by simp
    qed
    then show ?thesis using True r by (simp add: Let_def)
  next
    case False
    then show ?thesis using 2 by simp
  qed
qed

lemma rstrip_prefix: "s = rstrip s @ rev (takeWhile isspace (rev s))"
proof -
  have "rev (takeWhile isspace (rev s) @ dropWhile isspace (rev s)) = rev (rev s)"
    by (simp only: takeWhile_dropWhile_id)
  then show ?thesis
    by (simp only: rev_append rev_rev_ident rstrip_def)
qed

lemma hs_ok_strip: "hs_ok s \<Longrightarrow> hs_ok (strip s)"
proof -
  assume "hs_ok s"
  then have "hs_ok (lstrip s)" by (simp add: lstrip_def hs_ok_dropWhile)
  then have "hs_ok (rstrip (lstrip s) @ rev (takeWhile isspace (rev (lstrip s))))"
    using rstrip_prefix [of "lstrip s"] by simp
  then show ?thesis unfolding strip_def by (rule hs_ok_append_left)
qed

lemma nl_ok_strip: "nl_ok s \<Longrightarrow> nl_ok (strip s)"
proof -
  assume "nl_ok s"
  then have "nl_ok (lstrip s)" by (simp add: lstrip_def nl_ok_dropWhile)
  then have "nl_ok (rstrip (lstrip s) @ rev (takeWhile isspace (rev (lstrip s))))"
    using rstrip_prefix [of "lstrip s"] by simp
  then show ?thesis unfolding strip_def by (rule nl_ok_append_left)
qed

lemma strip_ends:
  assumes "strip s \<noteq> []"
  shows "\<not> isspace (hd (strip s))" "\<not> isspace (last (strip s))"
proof -
  let ?t = "dropWhile isspace s"
  let ?u = "dropWhile isspace (rev ?t)"
  have s: "strip s = rev ?u" by (simp add: strip_def rstrip_def lstrip_def)
  have u: "?u \<noteq> []" using assms s by simp
  have "?t = [] \<Longrightarrow> ?u = []" by (simp only: rev.simps dropWhile.simps)
  then have t: "?t \<noteq> []" using u by blast
  have "\<not> isspace (hd ?u)" using dropWhile_head [of isspace "rev ?t"] u by blast
  then show "\<not> isspace (last (strip s))" using u s by (simp add: last_rev)
  have "last ?u = last (rev ?t)" using u by (rule last_dropWhile)
  then have "last ?u = hd ?t" using t by (simp add: last_rev)
  moreover have "\<not> isspace (hd ?t)" using dropWhile_head [of isspace s] t by blast
  ultimately show "\<not> isspace (hd (strip s))" using u s by (simp add: hd_rev)
qed

lemma strip_id:
  assumes "y = [] \<or> (\<not> isspace (hd y) \<and> \<not> isspace (last y))"
  shows "strip y = y"
proof (cases y)
  case Nil
  then show ?thesis by (simp add: strip_def rstrip_def lstrip_def)
next
  case (Cons c cs)
  then have h: "\<not> isspace c" and l: "\<not> isspace (last y)" using assms by auto
  have 1: "dropWhile isspace y = y" using Cons h by simp
  have ne: "rev y \<noteq> []" using Cons by simp
  have "\<not> isspace (hd (rev y))" unfolding hd_rev by (rule l)
  with ne have 2: "dropWhile isspace (rev y) = rev y" by (rule dropWhile_keep)
  show ?thesis by (simp add: strip_def rstrip_def lstrip_def 1 2)
qed

lemma strip_strip: "strip (strip s) = strip s"
  by (rule strip_id) (use strip_ends [of s] in blast)

text \<open>
  C7: \<^verbatim>\<open>clean_text\<close> is idempotent, and the empty string is normalised to the empty
  string.
\<close>

theorem clean_text_idempotent:
  "clean_text (clean_text x) = clean_text x \<and> clean_text [] = []"
proof -
  let ?y = "strip (sub_newlines (sub_hspace x))"
  have hs: "hs_ok ?y"
    by (intro hs_ok_strip hs_ok_sub_newlines hs_ok_sub_hspace)
  have nl: "nl_ok ?y"
    by (intro nl_ok_strip nl_ok_sub_newlines)
  have "strip (sub_newlines (sub_hspace ?y)) = ?y"
    by (simp only: sub_hspace_id [OF hs] sub_newlines_id [OF nl] strip_strip)
  then show ?thesis by (simp add: clean_text_def)
qed

theorem clean_text_idempotent_witness:
  "clean_text (clean_text [CHR '' '', CHR ''a'', CHR 0x09, CHR '' '', CHR ''b'', CHR 0x0A,
                            CHR 0x0A, CHR 0x0A, CHR 0x0A, CHR ''c'', CHR '' ''])
   = [CHR ''a'', CHR '' '', CHR ''b'', CHR 0x0A, CHR 0x0A, CHR ''c'']"
  using clean_text_idempotent [of "[CHR '' '', CHR ''a'', CHR 0x09, CHR '' '', CHR ''b'',
                            CHR 0x0A, CHR 0x0A, CHR 0x0A, CHR 0x0A, CHR ''c'', CHR '' '']"]
  by (simp add: clean_text_def strip_def lstrip_def rstrip_def isspace_def is_hspace_def)

section \<open>Chunk validation\<close>

text \<open>
  C8, as the code has it: \<^verbatim>\<open>validate_chunk\<close> returns false for the empty string, for a
  whitespace-only string, for a string whose trimmed length is below \<^verbatim>\<open>min_length\<close>,
  and for a string with fewer than \<^verbatim>\<open>min_length // 2\<close> (floor division) alphanumeric
  characters; it returns true for every other string.
\<close>

theorem validate_chunk_spec:
  "validate_chunk chunk min_length =
     (\<not> (chunk = [] \<or> list_all isspace chunk
         \<or> int (length (strip chunk)) < min_length
         \<or> int (length (filter isalnum chunk)) < min_length div 2))"
  by (simp add: validate_chunk_def strip_empty_iff)

theorem validate_chunk_spec_witness:
  "validate_chunk ''study notes 42'' 10 \<and> \<not> validate_chunk ''.......'' 10"
  using validate_chunk_spec [of "''study notes 42''" 10]
    validate_chunk_spec [of "''.......''" 10]
  by (simp add: strip_def rstrip_def lstrip_def isspace_def isalnum_def)

text \<open>
  C8 as the claim words it (rejection by the untrimmed length and by half of
  \<^verbatim>\<open>min_length\<close> as a fraction, acceptance of everything else) fails in both
  directions: a padded string that is long enough untrimmed is rejected, and with an odd
  \<^verbatim>\<open>min_length\<close> a string with \<open>5 < 11 / 2\<close> alphanumeric characters is accepted.
\<close>

theorem validate_chunk_claim_counterexample:
  "\<not> validate_chunk ''  abcdefgh  '' 10
   \<and> ''  abcdefgh  '' \<noteq> []
   \<and> \<not> list_all isspace ''  abcdefgh  ''
   \<and> \<not> int (length ''  abcdefgh  '') < 10
   \<and> \<not> real (length (filter isalnum ''  abcdefgh  '')) < (10::real) / 2
   \<and> validate_chunk ''abcde......'' 11
   \<and> real (length (filter isalnum ''abcde......'')) < (11::real) / 2"
  by (simp add: validate_chunk_def strip_def rstrip_def lstrip_def isspace_def isalnum_def)

section \<open>The store invariant\<close>

lemma keys_upsert_doc:
  "fst ` set (docs (upsert_doc did name cs s)) = insert did (fst ` set (docs s))"
  "fst ` set (chunks (upsert_doc did name cs s)) = insert did (fst ` set (chunks s))"
  by (simp_all add: upsert_doc_def dom_update)

lemma keys_delete: "fst ` set (AList.delete k al) = fst ` set al - {k}"
  by (induction al) auto

lemma keys_remove_doc:
  "fst ` set (docs (remove_doc did s)) = fst ` set (docs s) - {did}"
  "fst ` set (chunks (remove_doc did s)) = fst ` set (chunks s) - {did}"
  by (simp_all add: remove_doc_def keys_delete)

lemma exec_op_keys:
  assumes "fst ` set (docs s) = fst ` set (chunks s)"
  shows "fst ` set (docs (exec_op s x)) = fst ` set (chunks (exec_op s x))"
  using assms by (cases x) (simp_all add: keys_upsert_doc keys_remove_doc)

lemma foldl_exec_op_keys:
  "fst ` set (docs s) = fst ` set (chunks s) \<Longrightarrow>
   fst ` set (docs (foldl exec_op s ops)) = fst ` set (chunks (foldl exec_op s ops))"
  by (induction ops arbitrary: s) (simp_all add: exec_op_keys)

text \<open>
  C10: starting from the empty store, after any sequence of \<^verbatim>\<open>upsert_doc\<close>,
  \<^verbatim>\<open>remove_doc\<close>, \<^verbatim>\<open>get_chunks\<close>, \<^verbatim>\<open>list_docs\<close>, \<^verbatim>\<open>get_total_chunks\<close>,
  \<^verbatim>\<open>get_memory_usage_mb\<close> and \<^verbatim>\<open>get_statistics\<close> calls the document-name dictionary
  and the chunk dictionary have the same set of keys.
\<close>

theorem store_keys_invariant:
  "fst ` set (docs (run_ops ops)) = fst ` set (chunks (run_ops ops))"
  unfolding run_ops_def
  by (rule foldl_exec_op_keys) (simp add: init_store_def)

theorem store_keys_invariant_witness:
  "fst ` set (docs (run_ops [UpsertDoc ''a'' ''a.pdf'' [], UpsertDoc ''b'' ''b.txt'' [],
                             GetStatistics, RemoveDoc ''a'', ListDocs]))
   = {''b''}
   \<and> fst ` set (chunks (run_ops [UpsertDoc ''a'' ''a.pdf'' [], UpsertDoc ''b'' ''b.txt'' [],
                             GetStatistics, RemoveDoc ''a'', ListDocs]))
   = {''b''}"
  using store_keys_invariant [of "[UpsertDoc ''a'' ''a.pdf'' [], UpsertDoc ''b'' ''b.txt'' [],
                             GetStatistics, RemoveDoc ''a'', ListDocs]"]
  by (simp add: run_ops_def init_store_def upsert_doc_def remove_doc_def)

section \<open>Retrieval: scores and top-k\<close>

lemma contains_iff: "contains w t \<longleftrightarrow> sublist w t"
  by (induction t) (simp_all add: sublist_Cons_right)

lemma foldl_score: "foldl (\<lambda>score w. if P w then score + 1 else score) a ws = a + length (filter P ws)"
  by (induction ws arbitrary: a) simp_all

lemma score_chunk_optimized_eq:
  "score_chunk_optimized toks t = length (filter (\<lambda>w. sublist w t) toks)"
  by (simp add: score_chunk_optimized_def foldl_score contains_iff)

lemma score_chunks_eq:
  "score_chunks toks chs =
     map (\<lambda>ch. (ch, score_chunk_optimized toks (lower (text_str ch))))
       (filter (\<lambda>ch. 0 < score_chunk_optimized toks (lower (text_str ch))) chs)"
  by (induction chs) (simp_all add: Let_def)

lemma slice_0: "0 \<le> k \<Longrightarrow> slice xs 0 k = take (nat k) xs"
  by (simp add: slice_def slice_index_def Let_def min_def)

lemma sorted_desc: "sorted_wrt (\<lambda>a b. snd b \<le> snd a) (sort_by_score_desc xs)"
proof -
  have "sorted (map (\<lambda>x. - int (snd x)) (sort_by_score_desc xs))"
    unfolding sort_by_score_desc_def by (rule sorted_sort_key)
  then show ?thesis by (simp add: sorted_map)
qed

lemma stable_desc:
  "filter (\<lambda>x. snd x = s) (sort_by_score_desc xs) = filter (\<lambda>x. snd x = s) xs"
  using sort_key_stable [of "\<lambda>x. - int (snd x)" "- int s" xs]
  by (simp add: sort_by_score_desc_def)


lemma score_chunks_chunk_score:
  "score_chunks (query_tokens_of q) chs =
     map (\<lambda>ch. (ch, chunk_score q ch)) (filter (\<lambda>ch. 0 < chunk_score q ch) chs)"
  by (simp add: score_chunks_eq chunk_score_def)

lemma retrieve_top_k_take:
  assumes "0 \<le> k"
  shows "retrieve_top_k q chs k =
     take (nat k) (sort_by_score_desc
       (map (\<lambda>ch. (ch, chunk_score q ch)) (filter (\<lambda>ch. 0 < chunk_score q ch) chs)))"
proof (cases "query_tokens_of q = []")
  case True
  then have "chunk_score q ch = 0" for ch
    by (simp add: chunk_score_def score_chunk_optimized_def)
  then show ?thesis using True
    by (simp add: retrieve_top_k_def sort_by_score_desc_def)
next
  case False
  then show ?thesis using assms
    by (simp add: retrieve_top_k_def slice_0 score_chunks_chunk_score)
qed

lemma filter_score_map:
  "filter (\<lambda>x. snd x = s) (map (\<lambda>ch. (ch, f ch)) (filter (\<lambda>ch. 0 < f ch) chs))
   = map (\<lambda>ch. (ch, s)) (filter (\<lambda>ch. f ch = s \<and> 0 < s) chs)"
  by (induction chs) auto

lemma prefix_filter_weaken:
  "prefix (map g (filter (\<lambda>ch. P ch \<and> Q) chs)) (map g (filter P chs))"
  by (cases Q) simp_all

text \<open>
  C3, for \<open>0 \<le> top_k\<close>: the result has \<open>min top_k n\<close> entries, where \<open>n\<close> is the number
  of chunks with a positive score; the scores are in descending order; for every score
  the entries with that score are the first of the chunks with that score in their
  original order; and the result is empty for an empty chunk list and for a query without
  a token longer than two characters. The function is total: it has no error result.
\<close>

theorem retrieve_top_k_spec:
  assumes "0 \<le> k"
  shows "length (retrieve_top_k q chs k)
           = min (nat k) (length (filter (\<lambda>ch. 0 < chunk_score q ch) chs))
       \<and> sorted_wrt (\<lambda>a b. snd b \<le> snd a) (retrieve_top_k q chs k)
       \<and> (\<forall>s. prefix (filter (\<lambda>x. snd x = s) (retrieve_top_k q chs k))
                  (map (\<lambda>ch. (ch, s)) (filter (\<lambda>ch. chunk_score q ch = s) chs)))
       \<and> retrieve_top_k q [] k = []
       \<and> (query_tokens_of q = [] \<longrightarrow> retrieve_top_k q chs k = [])"
proof -
  let ?scored = "map (\<lambda>ch. (ch, chunk_score q ch)) (filter (\<lambda>ch. 0 < chunk_score q ch) chs)"
  have r: "retrieve_top_k q chs k = take (nat k) (sort_by_score_desc ?scored)"
    using assms by (rule retrieve_top_k_take)
  have 1: "length (retrieve_top_k q chs k)
           = min (nat k) (length (filter (\<lambda>ch. 0 < chunk_score q ch) chs))"
    unfolding r by (simp add: sort_by_score_desc_def min.commute)
  have 2: "sorted_wrt (\<lambda>a b. snd b \<le> snd a) (retrieve_top_k q chs k)"
    unfolding r using sorted_desc by (rule sorted_wrt_take)
  have 3: "prefix (filter (\<lambda>x. snd x = s) (retrieve_top_k q chs k))
                  (map (\<lambda>ch. (ch, s)) (filter (\<lambda>ch. chunk_score q ch = s) chs))" for s
  proof -
    have "prefix (filter (\<lambda>x. snd x = s) (retrieve_top_k q chs k))
                 (filter (\<lambda>x. snd x = s) (sort_by_score_desc ?scored))"
      unfolding r by (rule filter_mono_prefix) (rule take_is_prefix)
    also have "filter (\<lambda>x. snd x = s) (sort_by_score_desc ?scored)
                 = map (\<lambda>ch. (ch, s)) (filter (\<lambda>ch. chunk_score q ch = s \<and> 0 < s) chs)"
      by (simp only: stable_desc filter_score_map)
    also have "prefix \<dots> (map (\<lambda>ch. (ch, s)) (filter (\<lambda>ch. chunk_score q ch = s) chs))"
      by (rule prefix_filter_weaken)
    finally show ?thesis .
  qed
  have 4: "retrieve_top_k q [] k = []"
    by (simp add: retrieve_top_k_def Let_def slice_def sort_by_score_desc_def)
  have 5: "query_tokens_of q = [] \<Longrightarrow> retrieve_top_k q chs k = []"
    by (simp add: retrieve_top_k_def)
  show ?thesis using 1 2 3 4 5 by simp
qed

lemmas eval_defs =
  retrieve_top_k_def query_tokens_of_def split_ws_def lower_def lower_char_def char_of_def
  bit_Suc_0_iff isspace_def score_chunk_optimized_def mk_chunk_def sort_by_score_desc_def
  slice_def slice_index_def Let_def chunk_score_def

theorem retrieve_top_k_spec_witness:
  "(0::int) \<le> 2
   \<and> length (retrieve_top_k ''cat mat dog''
        [mk_chunk ''d'' 0 ''a cat'', mk_chunk ''d'' 1 ''Cat on mat'',
         mk_chunk ''d'' 2 ''zebra'', mk_chunk ''d'' 3 ''dog''] 2)
      = min (nat 2) (length (filter (\<lambda>ch. 0 < chunk_score ''cat mat dog'' ch)
        [mk_chunk ''d'' 0 ''a cat'', mk_chunk ''d'' 1 ''Cat on mat'',
         mk_chunk ''d'' 2 ''zebra'', mk_chunk ''d'' 3 ''dog'']))
   \<and> retrieve_top_k ''cat mat dog''
        [mk_chunk ''d'' 0 ''a cat'', mk_chunk ''d'' 1 ''Cat on mat'',
         mk_chunk ''d'' 2 ''zebra'', mk_chunk ''d'' 3 ''dog''] 2
      = [(mk_chunk ''d'' 1 ''Cat on mat'', 2), (mk_chunk ''d'' 0 ''a cat'', 1)]"
proof -
  have h: "(0::int) \<le> 2" by simp
  have e: "retrieve_top_k ''cat mat dog''
        [mk_chunk ''d'' 0 ''a cat'', mk_chunk ''d'' 1 ''Cat on mat'',
         mk_chunk ''d'' 2 ''zebra'', mk_chunk ''d'' 3 ''dog''] 2
      = [(mk_chunk ''d'' 1 ''Cat on mat'', 2), (mk_chunk ''d'' 0 ''a cat'', 1)]"
    by (simp add: eval_defs)
  have l: "length (retrieve_top_k ''cat mat dog''
        [mk_chunk ''d'' 0 ''a cat'', mk_chunk ''d'' 1 ''Cat on mat'',
         mk_chunk ''d'' 2 ''zebra'', mk_chunk ''d'' 3 ''dog''] 2)
      = min (nat 2) (length (filter (\<lambda>ch. 0 < chunk_score ''cat mat dog'' ch)
        [mk_chunk ''d'' 0 ''a cat'', mk_chunk ''d'' 1 ''Cat on mat'',
         mk_chunk ''d'' 2 ''zebra'', mk_chunk ''d'' 3 ''dog'']))"
    using retrieve_top_k_spec [OF h] by (rule conjunct1)
  show ?thesis using h l e by (intro conjI)
qed

text \<open>
  C3 for every \<open>top_k\<close> fails: \<^verbatim>\<open>scored[:-1]\<close> drops the last entry, so with two matching
  chunks and \<open>top_k = -1\<close> one entry is returned, which is not \<open>min (-1) 2\<close>.
\<close>

theorem retrieve_top_k_negative_k_counterexample:
  "int (length (retrieve_top_k ''cat''
          [mk_chunk ''d'' 0 ''a cat'', mk_chunk ''d'' 1 ''cat on mat''] (- 1)))
     \<noteq> min (- 1) (int (length (filter (\<lambda>ch. 0 < chunk_score ''cat'' ch)
              [mk_chunk ''d'' 0 ''a cat'', mk_chunk ''d'' 1 ''cat on mat''])))"
  by (simp add: eval_defs)

lemma set_slice_subset: "set (slice xs a b) \<subseteq> set xs"
proof -
  have "set (slice xs a b) \<subseteq> set (drop (slice_index (length xs) a) xs)"
    unfolding slice_def Let_def by (rule set_take_subset)
  also have "\<dots> \<subseteq> set xs" by (rule set_drop_subset)
  finally show ?thesis .
qed

lemma retrieve_top_k_scores:
  assumes "(ch, s) \<in> set (retrieve_top_k q chs k)"
  shows "s = chunk_score q ch"
proof (cases "query_tokens_of q = []")
  case True
  then show ?thesis using assms by (simp add: retrieve_top_k_def)
next
  case False
  then have "(ch, s) \<in> set (sort_by_score_desc (score_chunks (query_tokens_of q) chs))"
    using assms set_slice_subset by (fastforce simp: retrieve_top_k_def)
  then show ?thesis
    by (auto simp: sort_by_score_desc_def score_chunks_chunk_score)
qed

text \<open>
  C4, as the code has it: the score of a chunk is the number of entries of the query's
  token list (whitespace-split, lowercased, longer than two characters, repetitions
  kept) that occur as a contiguous substring of the lowercased chunk text, and that is
  the score in every pair the retriever returns.
\<close>

theorem score_counts_query_token_occurrences:
  "score_chunk_optimized toks t = length (filter (\<lambda>w. sublist w t) toks)
   \<and> list_all (\<lambda>(ch, s). s = length (filter (\<lambda>w. sublist w (lower (text_str ch)))
                                        (query_tokens_of q)))
        (retrieve_top_k q chs k)"
proof -
  have "s = length (filter (\<lambda>w. sublist w (lower (text_str ch))) (query_tokens_of q))"
    if "(ch, s) \<in> set (retrieve_top_k q chs k)" for ch s
    using retrieve_top_k_scores [OF that]
    by (simp add: chunk_score_def score_chunk_optimized_eq)
  then show ?thesis
    by (auto simp: score_chunk_optimized_eq list_all_iff)
qed

theorem score_counts_query_token_occurrences_witness:
  "score_chunk_optimized [''cat'', ''mat'', ''cat''] ''the cat''
     = length (filter (\<lambda>w. sublist w ''the cat'') [''cat'', ''mat'', ''cat''])
   \<and> score_chunk_optimized [''cat'', ''mat'', ''cat''] ''the cat'' = 2
   \<and> retrieve_top_k ''cat cat'' [mk_chunk ''d'' 0 ''The Cat''] 5 = [(mk_chunk ''d'' 0 ''The Cat'', 2)]"
proof -
  have 1: "score_chunk_optimized [''cat'', ''mat'', ''cat''] ''the cat''
     = length (filter (\<lambda>w. sublist w ''the cat'') [''cat'', ''mat'', ''cat''])"
    using score_counts_query_token_occurrences [of "[''cat'', ''mat'', ''cat'']" "''the cat''"]
    by (rule conjunct1)
  have 2: "score_chunk_optimized [''cat'', ''mat'', ''cat''] ''the cat'' = 2"
    by (simp add: score_chunk_optimized_def)
  have 3: "retrieve_top_k ''cat cat'' [mk_chunk ''d'' 0 ''The Cat''] 5
             = [(mk_chunk ''d'' 0 ''The Cat'', 2)]"
    by (simp add: eval_defs)
  show ?thesis using 1 2 3 by (intro conjI)
qed

text \<open>
  C4 with distinct tokens fails: the query \<^verbatim>\<open>cat cat\<close> scores 2 on the text
  \<^verbatim>\<open>The Cat\<close>, which contains one distinct query token.
\<close>

theorem score_distinct_tokens_counterexample:
  "score_chunk_optimized (query_tokens_of ''cat cat'') (lower ''The Cat'') = 2
   \<and> length (remdups (filter (\<lambda>w. contains w (lower ''The Cat'')) (query_tokens_of ''cat cat''))) = 1"
  by (simp add: eval_defs)

section \<open>PDF extraction: page failures and the final check\<close>

lemma text_parts_process_page:
  "text_parts (process_page cb bs n i pg st) = text_parts st @ successful_page_texts [pg]"
  by (cases pg) (auto simp: process_page_def Let_def strip_def rstrip_def lstrip_def split: option.splits)

lemma successful_page_texts_Cons:
  "successful_page_texts (pg # pgs) = successful_page_texts [pg] @ successful_page_texts pgs"
  by (cases pg) simp_all

lemma text_parts_process_pages:
  "text_parts (process_pages cb bs n i pgs st) = text_parts st @ successful_page_texts pgs"
proof (induction pgs arbitrary: i st)
  case Nil
  then show ?case by simp
next
  case (Cons pg pgs)
  show ?case
    by (simp only: process_pages.simps Cons.IH text_parts_process_page
        successful_page_texts_Cons [of pg pgs] append_assoc)
qed


lemma pages_to_process_nonzero:
  "pages \<noteq> [] \<Longrightarrow> pages_to_process_of (int (length pages)) max_pages \<noteq> 0"
  by (cases pages) (auto simp: pages_to_process_of_def min_def split: option.splits)

lemma read_pdf_bytes_finish:
  assumes "validate_file_size (size_bytes f) max_mb = Inr ()"
    and "reader f = Reader pages" and "pages \<noteq> []"
  shows "read_pdf_bytes f max_mb max_pages cb bs =
           finish_extraction (successful_page_texts
             (take (nat (pages_to_process_of (int (length pages)) max_pages)) pages))"
  using assms pages_to_process_nonzero [of pages max_pages]
  by (simp add: read_pdf_bytes_def validate_pdf_integrity_def Let_def text_parts_process_pages)

lemma strip_clean_text: "strip (clean_text x) = clean_text x"
  by (simp add: clean_text_def strip_strip) (simp add: strip_def rstrip_def lstrip_def)

lemma finish_extraction_eq:
  "finish_extraction parts =
     (if parts = [] then Inl NoTextExtracted
      else if length (clean_text (join [CHR 0x0A, CHR 0x0A] parts)) < 10 then Inl NoMeaningfulText
      else Inr (clean_text (join [CHR 0x0A, CHR 0x0A] parts)))"
  by (auto simp: finish_extraction_def Let_def strip_clean_text)

text \<open>
  C5, as the code has it: for an input that passes the size check and the integrity
  check, no failure on a page (page access or extraction raising, extraction returning
  nothing, the callback raising, a zero batch size) aborts the document. The outcome
  depends only on the texts of the processed pages that are not only whitespace: with
  none of them the document fails with "no text could be extracted"; otherwise exactly
  those texts are joined in page order with a blank line and normalised, and the result
  is returned when it has at least 10 characters and rejected otherwise.
\<close>

theorem read_pdf_bytes_skips_failed_pages:
  assumes "validate_file_size (size_bytes f) max_mb = Inr ()"
    and "reader f = Reader pages" and "pages \<noteq> []"
    and "parts = successful_page_texts
                   (take (nat (pages_to_process_of (int (length pages)) max_pages)) pages)"
    and "cleaned = clean_text (join [CHR 0x0A, CHR 0x0A] parts)"
  shows "read_pdf_bytes f max_mb max_pages cb bs =
           (if parts = [] then Inl NoTextExtracted
            else if length cleaned < 10 then Inl NoMeaningfulText
            else Inr cleaned)"
  using read_pdf_bytes_finish [OF assms(1,2,3)] assms(4,5)
  by (simp only: finish_extraction_eq)

theorem read_pdf_bytes_skips_failed_pages_witness:
  "read_pdf_bytes \<lparr>size_bytes = 4096, reader = Reader ten_pages\<rparr> 50 None None 10 =
     Inr ''p1\<newline>\<newline>p2\<newline>\<newline>p4\<newline>\<newline>p5\<newline>\<newline>p6\<newline>\<newline>p8\<newline>\<newline>p9\<newline>\<newline>p10''"
proof -
  let ?f = "\<lparr>size_bytes = 4096, reader = Reader ten_pages\<rparr>"
  let ?parts = "[''p1'', ''p2'', ''p4'', ''p5'', ''p6'', ''p8'', ''p9'', ''p10'']"
  let ?cleaned = "''p1\<newline>\<newline>p2\<newline>\<newline>p4\<newline>\<newline>p5\<newline>\<newline>p6\<newline>\<newline>p8\<newline>\<newline>p9\<newline>\<newline>p10''"
  have 1: "validate_file_size (size_bytes ?f) 50 = Inr ()"
    by (simp add: validate_file_size_def)
  have 2: "reader ?f = Reader ten_pages" by simp
  have 3: "ten_pages \<noteq> []" by (simp add: ten_pages_def)
  have 4: "?parts = successful_page_texts
                   (take (nat (pages_to_process_of (int (length ten_pages)) None)) ten_pages)"
    by (simp add: ten_pages_def pages_to_process_of_def strip_def rstrip_def lstrip_def isspace_def)
  have 5: "?cleaned = clean_text (join [CHR 0x0A, CHR 0x0A] ?parts)"
    by (simp add: clean_text_def strip_def rstrip_def lstrip_def isspace_def is_hspace_def)
  show ?thesis
    using read_pdf_bytes_skips_failed_pages [OF 1 2 3 4 5, of None 10] by simp
qed

text \<open>
  C5 as stated fails: a document whose first page raises and whose second page yields the
  text \<^verbatim>\<open>hi\<close> has a page with text, and \<^verbatim>\<open>read_pdf_bytes\<close> fails on it.
\<close>

theorem read_pdf_bytes_short_text_counterexample:
  "read_pdf_bytes \<lparr>size_bytes = 4096, reader = Reader [ExtractRaises, Extracts ''hi'']\<rparr>
     50 None None 10 = Inl NoMeaningfulText"
  by (simp add: read_pdf_bytes_def validate_file_size_def validate_pdf_integrity_def
      pages_to_process_of_def process_page_def finish_extraction_def clean_text_def
      strip_def rstrip_def lstrip_def isspace_def is_hspace_def Let_def)

text \<open>
  C6, as the code has it: when some page text was collected, extraction fails with "no
  meaningful text" exactly when the normalised text has fewer than 10 characters, the
  whitespace inside it included; otherwise the normalised text is returned.
\<close>

theorem no_meaningful_text_iff:
  assumes "validate_file_size (size_bytes f) max_mb = Inr ()"
    and "reader f = Reader pages" and "pages \<noteq> []"
    and "parts = successful_page_texts
                   (take (nat (pages_to_process_of (int (length pages)) max_pages)) pages)"
    and "parts \<noteq> []"
    and "cleaned = clean_text (join [CHR 0x0A, CHR 0x0A] parts)"
  shows "(read_pdf_bytes f max_mb max_pages cb bs = Inl NoMeaningfulText
            \<longleftrightarrow> length cleaned < 10)
       \<and> (10 \<le> length cleaned \<longrightarrow> read_pdf_bytes f max_mb max_pages cb bs = Inr cleaned)"
  using read_pdf_bytes_finish [OF assms(1,2,3)] assms(4,5,6)
  by (simp add: finish_extraction_eq)

theorem no_meaningful_text_iff_witness:
  "read_pdf_bytes \<lparr>size_bytes = 4096, reader = Reader [Extracts ''a b c d e'']\<rparr> 50 None None 10
     = Inl NoMeaningfulText
   \<and> read_pdf_bytes \<lparr>size_bytes = 4096, reader = Reader [Extracts ''a b c d e f'']\<rparr> 50 None None 10
     = Inr ''a b c d e f''"
proof -
  let ?f = "\<lparr>size_bytes = 4096, reader = Reader [Extracts ''a b c d e'']\<rparr>"
  let ?g = "\<lparr>size_bytes = 4096, reader = Reader [Extracts ''a b c d e f'']\<rparr>"
  have vf: "validate_file_size (size_bytes ?f) 50 = Inr ()"
    and vg: "validate_file_size (size_bytes ?g) 50 = Inr ()"
    by (simp_all add: validate_file_size_def)
  have rf: "reader ?f = Reader [Extracts ''a b c d e'']"
    and rg: "reader ?g = Reader [Extracts ''a b c d e f'']"
    by simp_all
  have nf: "[Extracts ''a b c d e''] \<noteq> []" and ng: "[Extracts ''a b c d e f''] \<noteq> []"
    by simp_all
  have a: "[''a b c d e''] = successful_page_texts
             (take (nat (pages_to_process_of (int (length [Extracts ''a b c d e''])) None))
                [Extracts ''a b c d e''])"
    by (simp add: pages_to_process_of_def strip_def rstrip_def lstrip_def isspace_def)
  have b: "[''a b c d e f''] = successful_page_texts
             (take (nat (pages_to_process_of (int (length [Extracts ''a b c d e f''])) None))
                [Extracts ''a b c d e f''])"
    by (simp add: pages_to_process_of_def strip_def rstrip_def lstrip_def isspace_def)
  have pa: "[''a b c d e''] \<noteq> []" and pb: "[''a b c d e f''] \<noteq> []"
    by simp_all
  have ca: "''a b c d e'' = clean_text (join [CHR 0x0A, CHR 0x0A] [''a b c d e''])"
    by (simp add: clean_text_def strip_def rstrip_def lstrip_def isspace_def is_hspace_def)
  have cb: "''a b c d e f'' = clean_text (join [CHR 0x0A, CHR 0x0A] [''a b c d e f''])"
    by (simp add: clean_text_def strip_def rstrip_def lstrip_def isspace_def is_hspace_def)
  show ?thesis
    using no_meaningful_text_iff [OF vf rf nf a pa ca, of None 10]
      no_meaningful_text_iff [OF vg rg ng b pb cb, of None 10]
    by simp
qed

text \<open>
  C6 with a count of non-whitespace characters fails: \<^verbatim>\<open>a b c d e f\<close> has 6 of them and
  11 characters, and is returned.
\<close>

theorem non_whitespace_count_counterexample:
  "read_pdf_bytes \<lparr>size_bytes = 4096, reader = Reader [Extracts ''a b c d e f'']\<rparr> 50 None None 10
     = Inr ''a b c d e f''
   \<and> length (filter (\<lambda>c. \<not> isspace c) ''a b c d e f'') < 10"
  by (simp add: read_pdf_bytes_def validate_file_size_def validate_pdf_integrity_def
      pages_to_process_of_def process_page_def finish_extraction_def clean_text_def
      strip_def rstrip_def lstrip_def isspace_def is_hspace_def Let_def)

section \<open>Chunking: termination, chunk lengths, blank chunks\<close>

lemma emit_cases: "c \<in> set (emit t) \<Longrightarrow> c = strip t \<and> strip t \<noteq> []"
  by (simp add: emit_def split: if_splits)

lemma strip_not_blank: "strip s \<noteq> [] \<Longrightarrow> \<not> list_all isspace (strip s)"
  using strip_empty_iff [of "strip s"] by (simp add: strip_strip)

lemma length_join:
  "g \<noteq> [] \<Longrightarrow> length (join sep g) = sum_list (map length g) + length sep * (length g - 1)"
  by (induction sep g rule: join.induct) simp_all

lemma overlap_scan_inv:
  assumes "overlap_scan xs ov acc sz = (cc, szo)"
    and "sz = int (sum_list (map length acc))" and "sz \<le> max 0 ov"
    and "set acc \<subseteq> S" and "set xs \<subseteq> S"
  shows "szo = int (sum_list (map length cc)) \<and> szo \<le> max 0 ov \<and> set cc \<subseteq> S"
  using assms
proof (induction xs arbitrary: acc sz)
  case Nil
  then show ?case by auto
next
  case (Cons x xs)
  show ?case
  proof (cases "sz + int (length x) \<le> ov")
    case True
    then have "overlap_scan xs ov (x # acc) (sz + int (length x)) = (cc, szo)"
      using Cons.prems(1) by simp
    moreover have "sz + int (length x) = int (sum_list (map length (x # acc)))"
      using Cons.prems(2) by simp
    moreover have "sz + int (length x) \<le> max 0 ov" using True by simp
    moreover have "set (x # acc) \<subseteq> S" "set xs \<subseteq> S" using Cons.prems(4,5) by simp_all
    ultimately show ?thesis by (rule Cons.IH)
  next
    case False
    then have "cc = acc" "szo = sz" using Cons.prems(1) by simp_all
    then show ?thesis using Cons.prems(2,3,4) by simp
  qed
qed

lemma sentence_chunks_groups:
  assumes "\<forall>s \<in> set (cur @ ss). length s \<le> L"
    and "sz = int (sum_list (map length cur))"
    and "sz \<le> cs + int L" and "ov \<le> cs" and "0 \<le> cs"
    and "c \<in> set (sentence_chunks ss cs ov cur sz)"
  shows "\<exists>g. g \<noteq> [] \<and> set g \<subseteq> set (cur @ ss) \<and> c = strip (join '' '' g) \<and> c \<noteq> []
             \<and> int (sum_list (map length g)) \<le> cs + int L"
  using assms
proof (induction ss arbitrary: cur sz)
  case Nil
  then have "cur \<noteq> []" and "c \<in> set (emit (join '' '' cur))"
    by (auto split: if_splits)
  then show ?case using Nil.prems(2,3) emit_cases [of c "join '' '' cur"] by auto
next
  case (Cons s ss)
  have s: "length s \<le> L" using Cons.prems(1) by simp
  show ?case
  proof (cases "sz + int (length s) > cs \<and> cur \<noteq> []")
    case True
    obtain cc szo where o: "(if int (length (join '' '' cur)) > ov
                           then overlap_scan (rev cur) ov [] 0 else ([], 0)) = (cc, szo)"
      by (cases "if int (length (join '' '' cur)) > ov
                 then overlap_scan (rev cur) ov [] 0 else ([], 0)") simp
    have inv: "szo = int (sum_list (map length cc)) \<and> szo \<le> max 0 ov \<and> set cc \<subseteq> set cur"
    proof (cases "int (length (join '' '' cur)) > ov")
      case t: True
      then have "overlap_scan (rev cur) ov [] 0 = (cc, szo)" using o by simp
      then show ?thesis by (rule overlap_scan_inv) simp_all
    next
      case False
      then show ?thesis using o by auto
    qed
    from Cons.prems(6) True o
    have "c \<in> set (emit (join '' '' cur))
          \<or> c \<in> set (sentence_chunks ss cs ov (cc @ [s]) (szo + int (length s)))"
      by (simp add: Let_def)
    then show ?thesis
    proof
      assume "c \<in> set (emit (join '' '' cur))"
      then show ?thesis using True Cons.prems(2,3) emit_cases [of c "join '' '' cur"] by auto
    next
      assume r: "c \<in> set (sentence_chunks ss cs ov (cc @ [s]) (szo + int (length s)))"
      have 1: "\<forall>x \<in> set ((cc @ [s]) @ ss). length x \<le> L"
        using Cons.prems(1) inv by auto
      have 2: "szo + int (length s) = int (sum_list (map length (cc @ [s])))"
        using inv by simp
      have "szo \<le> cs" using inv Cons.prems(4,5) by (simp add: max_def split: if_splits)
      then have 3: "szo + int (length s) \<le> cs + int L"
        using s by simp
      from Cons.IH [OF 1 2 3 Cons.prems(4,5) r]
      obtain g where "g \<noteq> []" "set g \<subseteq> set ((cc @ [s]) @ ss)" "c = strip (join '' '' g)"
        "c \<noteq> []" "int (sum_list (map length g)) \<le> cs + int L" by blast
      moreover have "set ((cc @ [s]) @ ss) \<subseteq> set (cur @ s # ss)" using inv by auto
      ultimately show ?thesis by blast
    qed
  next
    case False
    then have r: "c \<in> set (sentence_chunks ss cs ov (cur @ [s]) (sz + int (length s)))"
      using Cons.prems(6) by (auto simp: Let_def)
    have 1: "\<forall>x \<in> set ((cur @ [s]) @ ss). length x \<le> L" using Cons.prems(1) by auto
    have 2: "sz + int (length s) = int (sum_list (map length (cur @ [s])))"
      using Cons.prems(2) by simp
    have 3: "sz + int (length s) \<le> cs + int L"
    proof (cases "cur = []")
      case True
      then show ?thesis using Cons.prems(2,5) s by simp
    next
      case f: False
      then show ?thesis using False by simp
    qed
    from Cons.IH [OF 1 2 3 Cons.prems(4,5) r] show ?thesis by simp
  qed
qed

lemma length_slice_le:
  assumes "0 \<le> a" and "0 \<le> b" and "b \<le> a + k" and "0 \<le> k"
  shows "int (length (slice xs a b)) \<le> k"
proof -
  let ?n = "length xs"
  have "length (slice xs a b) \<le> min ?n (nat b) - min ?n (nat a)"
    using assms(1,2) by (simp add: slice_def slice_index_def Let_def)
  also have "\<dots> \<le> nat b - nat a" by linarith
  finally have "length (slice xs a b) \<le> nat b - nat a" .
  moreover have "int (nat b - nat a) \<le> k" using assms by linarith
  ultimately show ?thesis by linarith
qed

lemma char_chunks_step:
  assumes "start < int (length txt)"
  shows "char_chunks (Suc fuel) txt cs ov start =
     (if max 0 (min (int (length txt)) (start + cs) - ov) \<ge> int (length txt)
      then (emit (slice txt start (min (int (length txt)) (start + cs))), True)
      else (emit (slice txt start (min (int (length txt)) (start + cs)))
              @ fst (char_chunks fuel txt cs ov (max 0 (min (int (length txt)) (start + cs) - ov))),
            snd (char_chunks fuel txt cs ov (max 0 (min (int (length txt)) (start + cs) - ov)))))"
proof -
  have m: "(if e - ov < 0 then 0 else e - ov) = max 0 (e - ov)" for e :: int
    by (simp add: max_def)
  show ?thesis
    using assms unfolding char_chunks.simps Let_def m
    by (simp split: prod.splits)
qed

lemma char_chunks_stop:
  "\<not> start < int (length txt) \<Longrightarrow> char_chunks fuel txt cs ov start = ([], True)"
  by (cases fuel) (simp_all add: Let_def)

lemma char_chunks_yields:
  assumes "c \<in> set (fst (char_chunks (Suc fuel) txt cs ov start))"
  shows "start < int (length txt) \<and>
     (c \<in> set (emit (slice txt start (min (int (length txt)) (start + cs))))
      \<or> c \<in> set (fst (char_chunks fuel txt cs ov
             (max 0 (min (int (length txt)) (start + cs) - ov)))))"
proof (cases "start < int (length txt)")
  case True
  show ?thesis
  proof (cases "max 0 (min (int (length txt)) (start + cs) - ov) \<ge> int (length txt)")
    case t: True
    then show ?thesis using assms True
      unfolding char_chunks_step [OF True] by simp
  next
    case False
    then show ?thesis using assms True
      unfolding char_chunks_step [OF True] by simp
  qed
next
  case False
  then show ?thesis using assms unfolding char_chunks_stop [OF False] by simp
qed

lemma char_chunks_length:
  assumes "0 \<le> start" and "0 < cs" and "c \<in> set (fst (char_chunks fuel txt cs ov start))"
  shows "int (length c) \<le> cs"
  using assms
proof (induction fuel arbitrary: start)
  case 0
  then show ?case by simp
next
  case (Suc fuel)
  let ?e = "min (int (length txt)) (start + cs)"
  let ?s2 = "max 0 (?e - ov)"
  from char_chunks_yields [OF Suc.prems(3)]
  have "c \<in> set (emit (slice txt start ?e)) \<or> c \<in> set (fst (char_chunks fuel txt cs ov ?s2))"
    by blast
  then show ?case
  proof
    assume "c \<in> set (emit (slice txt start ?e))"
    then have "c = strip (slice txt start ?e)" by (simp add: emit_cases)
    then have "length c \<le> length (slice txt start ?e)" by (simp add: length_strip_le)
    moreover have "int (length (slice txt start ?e)) \<le> cs"
    proof (rule length_slice_le)
      show "0 \<le> start" by (rule Suc.prems(1))
      show "0 \<le> ?e" using Suc.prems(1,2) by linarith
      show "?e \<le> start + cs" by linarith
      show "0 \<le> cs" using Suc.prems(2) by linarith
    qed
    ultimately show ?thesis by linarith
  next
    assume r: "c \<in> set (fst (char_chunks fuel txt cs ov ?s2))"
    have "0 \<le> ?s2" by linarith
    then show ?thesis using Suc.prems(2) r by (rule Suc.IH)
  qed
qed

lemma char_chunks_not_blank:
  assumes "c \<in> set (fst (char_chunks fuel txt cs ov start))"
  shows "c \<noteq> [] \<and> \<not> list_all isspace c"
  using assms
proof (induction fuel arbitrary: start)
  case 0
  then show ?case by simp
next
  case (Suc fuel)
  let ?e = "min (int (length txt)) (start + cs)"
  let ?s2 = "max 0 (?e - ov)"
  from char_chunks_yields [OF Suc.prems]
  have "c \<in> set (emit (slice txt start ?e)) \<or> c \<in> set (fst (char_chunks fuel txt cs ov ?s2))"
    by blast
  then show ?case
  proof
    assume "c \<in> set (emit (slice txt start ?e))"
    then have "c = strip (slice txt start ?e) \<and> strip (slice txt start ?e) \<noteq> []"
      by (rule emit_cases)
    then show ?thesis using strip_not_blank [of "slice txt start ?e"] by simp
  next
    assume "c \<in> set (fst (char_chunks fuel txt cs ov ?s2))"
    then show ?thesis by (rule Suc.IH)
  qed
qed

lemma char_chunks_never_done:
  assumes "0 < ov" and "0 \<le> start" and "start < int (length txt)"
  shows "\<not> snd (char_chunks fuel txt cs ov start)"
  using assms
proof (induction fuel arbitrary: start)
  case 0
  then show ?case by simp
next
  case (Suc fuel)
  let ?n = "int (length txt)"
  let ?e = "min ?n (start + cs)"
  let ?s2 = "max 0 (?e - ov)"
  have lt: "?s2 < ?n" using Suc.prems by linarith
  have ge: "0 \<le> ?s2" by linarith
  have ng: "\<not> ?s2 \<ge> ?n" using lt by linarith
  have "\<not> snd (char_chunks fuel txt cs ov ?s2)"
    using Suc.prems(1) ge lt by (rule Suc.IH)
  then show ?case
    unfolding char_chunks_step [OF Suc.prems(3)] using ng
    by (simp only: if_False snd_conv not_False_eq_True)
qed

lemma foldr_max_ge: "x \<in> set xs \<Longrightarrow> x \<le> foldr max xs (0::nat)"
  by (induction xs) auto

lemma sentence_length_le_longest:
  "s \<in> set (split_into_sentences txt) \<Longrightarrow> length s \<le> longest_sentence txt"
  unfolding longest_sentence_def by (rule foldr_max_ge) simp

lemma clamped_overlap_le:
  "0 < cs \<Longrightarrow> (if ov \<ge> cs then max 0 (cs div 3) else ov) \<le> (cs::int)"
  by auto

lemma chunk_text_sentence_mode:
  assumes "0 < cs" and "sa \<and> int (length txt) < cs * 100"
  shows "chunk_text fuel txt cs ov sa =
           (sentence_chunks (split_into_sentences txt) cs
              (if ov \<ge> cs then max 0 (cs div 3) else ov) [] 0, True)"
  using assms by (simp add: chunk_text_def Let_def)

lemma chunk_text_char_mode:
  assumes "0 < cs" and "\<not> (sa \<and> int (length txt) < cs * 100)"
  shows "chunk_text fuel txt cs ov sa =
           char_chunks fuel txt cs (if ov \<ge> cs then max 0 (cs div 3) else ov) 0"
proof -
  have "chunk_text fuel txt cs ov sa =
          (if sa \<and> int (length txt) < cs * 100
           then (sentence_chunks (split_into_sentences txt) cs
                   (if ov \<ge> cs then max 0 (cs div 3) else ov) [] 0, True)
           else char_chunks fuel txt cs (if ov \<ge> cs then max 0 (cs div 3) else ov) 0)"
    using assms(1) by (simp add: chunk_text_def Let_def)
  then show ?thesis using assms(2) by (simp only: if_False if_not_P)
qed

lemma sentence_chunks_not_blank:
  "c \<in> set (sentence_chunks ss cs ov cur sz) \<Longrightarrow> c \<noteq> [] \<and> \<not> list_all isspace c"
proof (induction ss arbitrary: cur sz)
  case Nil
  then have "c \<in> set (emit (join '' '' cur))" by (simp split: if_splits)
  then have "c = strip (join '' '' cur) \<and> strip (join '' '' cur) \<noteq> []" by (rule emit_cases)
  then show ?case using strip_not_blank [of "join '' '' cur"] by simp
next
  case (Cons s ss)
  show ?case
  proof (cases "sz + int (length s) > cs \<and> cur \<noteq> []")
    case True
    obtain cc szo where o: "(if int (length (join '' '' cur)) > ov
                           then overlap_scan (rev cur) ov [] 0 else ([], 0)) = (cc, szo)"
      by (cases "if int (length (join '' '' cur)) > ov
                 then overlap_scan (rev cur) ov [] 0 else ([], 0)") simp
    from Cons.prems True o
    have "c \<in> set (emit (join '' '' cur))
          \<or> c \<in> set (sentence_chunks ss cs ov (cc @ [s]) (szo + int (length s)))"
      by (simp add: Let_def)
    then show ?thesis
    proof
      assume "c \<in> set (emit (join '' '' cur))"
      then have "c = strip (join '' '' cur) \<and> strip (join '' '' cur) \<noteq> []" by (rule emit_cases)
      then show ?thesis using strip_not_blank [of "join '' '' cur"] by simp
    next
      assume "c \<in> set (sentence_chunks ss cs ov (cc @ [s]) (szo + int (length s)))"
      then show ?thesis by (rule Cons.IH)
    qed
  next
    case False
    then have "c \<in> set (sentence_chunks ss cs ov (cur @ [s]) (sz + int (length s)))"
      using Cons.prems by (auto simp: Let_def)
    then show ?thesis by (rule Cons.IH)
  qed
qed

text \<open>
  C2, as the code has it, for \<open>0 < chunk_size\<close> and \<open>0 \<le> overlap < chunk_size\<close>. In
  sentence-aware mode every chunk is the trimmed join, with single spaces, of sentences
  of the input whose lengths sum to at most \<open>chunk_size\<close> plus the longest sentence
  length; the chunk itself is longer than that sum by at most the joining spaces, one
  less than the number of its sentences. In character-fallback mode every chunk has at
  most \<open>chunk_size\<close> characters.
\<close>

theorem chunk_length_bounds:
  assumes "0 < chunk_size" and "0 \<le> overlap" and "overlap < chunk_size"
  shows "(sentence_aware \<and> int (length txt) < chunk_size * 100 \<longrightarrow>
            (\<forall>c \<in> set (fst (chunk_text fuel txt chunk_size overlap sentence_aware)).
               \<exists>g. g \<noteq> [] \<and> set g \<subseteq> set (split_into_sentences txt)
                   \<and> c = strip (join '' '' g)
                   \<and> int (sum_list (map length g)) \<le> chunk_size + int (longest_sentence txt)
                   \<and> int (length c)
                       \<le> chunk_size + int (longest_sentence txt) + (int (length g) - 1)))
       \<and> (\<not> (sentence_aware \<and> int (length txt) < chunk_size * 100) \<longrightarrow>
            (\<forall>c \<in> set (fst (chunk_text fuel txt chunk_size overlap sentence_aware)).
               int (length c) \<le> chunk_size))"
proof (intro conjI impI ballI)
  fix c
  assume m: "sentence_aware \<and> int (length txt) < chunk_size * 100"
    and c: "c \<in> set (fst (chunk_text fuel txt chunk_size overlap sentence_aware))"
  let ?L = "longest_sentence txt"
  have c': "c \<in> set (sentence_chunks (split_into_sentences txt) chunk_size overlap [] 0)"
    using c assms(3) unfolding chunk_text_sentence_mode [OF assms(1) m] by simp
  have 1: "\<forall>s \<in> set ([] @ split_into_sentences txt). length s \<le> ?L"
    by (simp add: sentence_length_le_longest)
  have "\<exists>g. g \<noteq> [] \<and> set g \<subseteq> set ([] @ split_into_sentences txt) \<and> c = strip (join '' '' g)
            \<and> c \<noteq> [] \<and> int (sum_list (map length g)) \<le> chunk_size + int ?L"
    using 1 _ _ _ _ c' by (rule sentence_chunks_groups) (use assms in simp_all)
  then obtain g where g: "g \<noteq> []" "set g \<subseteq> set (split_into_sentences txt)"
    "c = strip (join '' '' g)" "int (sum_list (map length g)) \<le> chunk_size + int ?L"
    by auto
  have "length c \<le> length (join '' '' g)" unfolding g(3) by (rule length_strip_le)
  also have "\<dots> = sum_list (map length g) + (length g - 1)"
    using length_join [OF g(1), of "'' ''"] by simp
  finally have "int (length c) \<le> chunk_size + int ?L + (int (length g) - 1)"
    using g(1,4) by (cases g) simp_all
  then show "\<exists>g. g \<noteq> [] \<and> set g \<subseteq> set (split_into_sentences txt)
                   \<and> c = strip (join '' '' g)
                   \<and> int (sum_list (map length g)) \<le> chunk_size + int ?L
                   \<and> int (length c) \<le> chunk_size + int ?L + (int (length g) - 1)"
    using g by blast
next
  fix c
  assume m: "\<not> (sentence_aware \<and> int (length txt) < chunk_size * 100)"
    and c: "c \<in> set (fst (chunk_text fuel txt chunk_size overlap sentence_aware))"
  have "c \<in> set (fst (char_chunks fuel txt chunk_size overlap 0))"
    using c assms(3) unfolding chunk_text_char_mode [OF assms(1) m] by simp
  then show "int (length c) \<le> chunk_size"
    using char_chunks_length [of 0 chunk_size c fuel "txt" overlap] assms(1) by simp
qed

text \<open>
  C9, as the code has it: for \<open>0 < chunk_size\<close> no chunk yielded, in any mode and after
  any number of iterations, is empty or only whitespace; for \<open>chunk_size \<le> 0\<close> the text
  itself is the one chunk.
\<close>

theorem chunk_text_no_blank_chunks:
  "(0 < chunk_size \<longrightarrow>
      (\<forall>c \<in> set (fst (chunk_text fuel txt chunk_size overlap sentence_aware)).
         c \<noteq> [] \<and> \<not> list_all isspace c))
   \<and> (chunk_size \<le> 0 \<longrightarrow>
        chunk_text fuel txt chunk_size overlap sentence_aware = ([txt], True))"
proof -
  let ?ov = "if overlap \<ge> chunk_size then max 0 (chunk_size div 3) else overlap"
  have 1: "c \<noteq> [] \<and> \<not> list_all isspace c"
    if p: "0 < chunk_size"
      and c: "c \<in> set (fst (chunk_text fuel txt chunk_size overlap sentence_aware))" for c
  proof (cases "sentence_aware \<and> int (length txt) < chunk_size * 100")
    case True
    have "c \<in> set (sentence_chunks (split_into_sentences txt) chunk_size ?ov [] 0)"
      using c unfolding chunk_text_sentence_mode [OF p True] by simp
    then show ?thesis by (rule sentence_chunks_not_blank)
  next
    case False
    have "c \<in> set (fst (char_chunks fuel txt chunk_size ?ov 0))"
      using c unfolding chunk_text_char_mode [OF p False] by simp
    then show ?thesis by (rule char_chunks_not_blank)
  qed
  have 2: "chunk_text fuel txt chunk_size overlap sentence_aware = ([txt], True)"
    if "chunk_size \<le> 0"
    using that by (simp add: chunk_text_def)
  show ?thesis using 1 2 by blast
qed

lemma char_chunks_ab: "char_chunks fuel ''ab'' 2 1 1 = (replicate fuel ''b'', False)"
proof (induction fuel)
  case 0
  then show ?case by simp
next
  case (Suc fuel)
  have e: "emit (slice ''ab'' 1 2) = [''b'']"
    by (simp add: emit_def slice_def slice_index_def strip_def rstrip_def lstrip_def isspace_def)
  have "(1::int) < int (length ''ab'')" by simp
  from char_chunks_step [OF this, of fuel 2 1] show ?case
    by (simp add: e Suc)
qed

text \<open>
  C1: the character loop on the text \<^verbatim>\<open>ab\<close> with \<open>chunk_size = 2\<close> and \<open>overlap = 1\<close>.
  After the window \<^verbatim>\<open>ab\<close> the start is \<open>2 - 1 = 1\<close>, and from then on every iteration
  yields \<^verbatim>\<open>b\<close> and sets the start to 1 again: whatever the number of iterations, the
  generator is not exhausted.
\<close>

theorem chunk_text_char_mode_loops:
  "chunk_text (Suc fuel) ''ab'' 2 1 False = (''ab'' # replicate fuel ''b'', False)"
proof -
  have e: "emit (slice ''ab'' 0 2) = [''ab'']"
    by (simp add: emit_def slice_def slice_index_def strip_def rstrip_def lstrip_def isspace_def)
  have "(0::int) < int (length ''ab'')" by simp
  from char_chunks_step [OF this, of fuel 2 1]
  have "char_chunks (Suc fuel) ''ab'' 2 1 0 = (''ab'' # replicate fuel ''b'', False)"
    by (simp add: e char_chunks_ab)
  then show ?thesis by (simp add: chunk_text_def)
qed

text \<open>
  The same holds for every non-empty text in character mode as soon as the overlap is
  positive: the start never reaches the end of the text. With an overlap of 0 the loop
  ends after at most one iteration per window.
\<close>

lemma chunk_text_char_mode_never_exhausted:
  assumes "0 < chunk_size" and "0 < overlap" and "overlap < chunk_size" and "txt \<noteq> []"
    and "\<not> (sentence_aware \<and> int (length txt) < chunk_size * 100)"
  shows "\<not> snd (chunk_text fuel txt chunk_size overlap sentence_aware)"
proof -
  have "(0::int) < int (length txt)" using assms(4) by simp
  with assms(2) have "\<not> snd (char_chunks fuel txt chunk_size overlap 0)"
    by (intro char_chunks_never_done) simp_all
  then show ?thesis
    unfolding chunk_text_char_mode [OF assms(1,5)] using assms(3) by simp
qed

lemma char_chunks_done_without_overlap:
  assumes "0 < cs" and "ov \<le> 0" and "0 \<le> start"
    and "int (length txt) - start \<le> int fuel * cs"
  shows "snd (char_chunks fuel txt cs ov start)"
  using assms(3,4)
proof (induction fuel arbitrary: start)
  case 0
  then show ?case by simp
next
  case (Suc fuel)
  let ?n = "int (length txt)"
  let ?e = "min ?n (start + cs)"
  let ?s2 = "max 0 (?e - ov)"
  show ?case
  proof (cases "start < ?n")
    case False
    then show ?thesis by (simp only: char_chunks_stop [OF False] snd_conv)
  next
    case True
    show ?thesis
    proof (cases "?s2 \<ge> ?n")
      case t: True
      then show ?thesis unfolding char_chunks_step [OF True] by (simp only: if_True snd_conv)
    next
      case False
      have ge: "0 \<le> ?s2" by linarith
      have "int (Suc fuel) * cs = int fuel * cs + cs" by (simp add: algebra_simps)
      then have "?n - ?s2 \<le> int fuel * cs"
        using Suc.prems assms(1,2) False by linarith
      with ge have "snd (char_chunks fuel txt cs ov ?s2)" by (rule Suc.IH)
      then show ?thesis unfolding char_chunks_step [OF True] using False
        by (simp only: if_False snd_conv)
    qed
  qed
qed

lemmas chunk_eval =
  chunk_text_def split_into_sentences_def is_sentence_end_def isspace_def strip_def rstrip_def
  lstrip_def emit_def Let_def longest_sentence_def slice_def slice_index_def

lemma ex_chunks: "chunk_text 0 ''a. a. a. a. a. a.'' 10 0 True = ([''a. a. a. a. a.'', ''a.''], True)"
  by (simp add: chunk_eval)

lemma ex_longest: "longest_sentence ''a. a. a. a. a. a.'' = 2"
  by (simp add: chunk_eval)

theorem chunk_length_bounds_witness:
  "''a. a. a. a. a.'' \<in> set (fst (chunk_text 0 ''a. a. a. a. a. a.'' 10 0 True))
   \<and> (\<exists>g. g \<noteq> [] \<and> set g \<subseteq> set (split_into_sentences ''a. a. a. a. a. a.'')
          \<and> ''a. a. a. a. a.'' = strip (join '' '' g)
          \<and> int (sum_list (map length g)) \<le> 10 + int (longest_sentence ''a. a. a. a. a. a.'')
          \<and> int (length ''a. a. a. a. a.'')
               \<le> 10 + int (longest_sentence ''a. a. a. a. a. a.'') + (int (length g) - 1))
   \<and> ''abc'' \<in> set (fst (chunk_text 4 ''abcdefghij'' 3 0 False))
   \<and> int (length ''abc'') \<le> 3"
proof -
  have h: "(0::int) < 10" "(0::int) \<le> 0" "(0::int) < 3" by simp_all
  have m1: "''a. a. a. a. a.'' \<in> set (fst (chunk_text 0 ''a. a. a. a. a. a.'' 10 0 True))"
    by (simp add: ex_chunks)
  have m2: "''abc'' \<in> set (fst (chunk_text 4 ''abcdefghij'' 3 0 False))"
    by (simp add: chunk_eval eval_nat_numeral)
  have s: "True \<and> int (length ''a. a. a. a. a. a.'') < 10 * 100" by simp
  have c: "\<not> (False \<and> int (length ''abcdefghij'') < 3 * 100)" by simp
  from chunk_length_bounds [OF h(1) h(2) h(1), of True "''a. a. a. a. a. a.''" 0] s m1
  have 1: "\<exists>g. g \<noteq> [] \<and> set g \<subseteq> set (split_into_sentences ''a. a. a. a. a. a.'')
          \<and> ''a. a. a. a. a.'' = strip (join '' '' g)
          \<and> int (sum_list (map length g)) \<le> 10 + int (longest_sentence ''a. a. a. a. a. a.'')
          \<and> int (length ''a. a. a. a. a.'')
               \<le> 10 + int (longest_sentence ''a. a. a. a. a. a.'') + (int (length g) - 1)"
    by blast
  from chunk_length_bounds [OF h(3) h(2) h(3), of False "''abcdefghij''" 4] c m2
  have 2: "int (length ''abc'') \<le> 3" by blast
  show ?thesis using m1 1 m2 2 by (intro conjI)
qed

text \<open>
  C2 without the joining spaces fails: six sentences \<^verbatim>\<open>a.\<close> with \<open>chunk_size = 10\<close> give
  a chunk of five sentences, 14 characters long, where the longest sentence has 2.
\<close>

theorem chunk_length_bound_counterexample:
  "''a. a. a. a. a.'' \<in> set (fst (chunk_text 0 ''a. a. a. a. a. a.'' 10 0 True))
   \<and> \<not> int (length ''a. a. a. a. a.'') \<le> 10 + int (longest_sentence ''a. a. a. a. a. a.'')"
  by (simp add: ex_chunks ex_longest)

theorem chunk_text_no_blank_chunks_witness:
  "''a. a. a. a. a.'' \<noteq> [] \<and> \<not> list_all isspace ''a. a. a. a. a.''
   \<and> chunk_text 0 ''abc'' 0 0 True = ([''abc''], True)"
proof -
  have m: "''a. a. a. a. a.'' \<in> set (fst (chunk_text 0 ''a. a. a. a. a. a.'' 10 0 True))"
    by (simp add: ex_chunks)
  have h: "(0::int) < 10" "(0::int) \<le> 0" by simp_all
  from chunk_text_no_blank_chunks [of 10 0 "''a. a. a. a. a. a.''" 0 True] h(1) m
  have 1: "''a. a. a. a. a.'' \<noteq> [] \<and> \<not> list_all isspace ''a. a. a. a. a.''" by blast
  from chunk_text_no_blank_chunks [of 0 0 "''abc''" 0 True] h(2)
  have 2: "chunk_text 0 ''abc'' 0 0 True = ([''abc''], True)" by blast
  show ?thesis using 1 2 by (intro conjI) simp_all
qed

text \<open>
  C9 in the degenerate case fails: with \<open>chunk_size \<le> 0\<close> a text of three spaces, and the
  empty text, are yielded as they are.
\<close>

theorem chunk_text_degenerate_counterexample:
  "chunk_text 0 ''   '' 0 0 True = ([''   ''], True) \<and> list_all isspace ''   ''
   \<and> chunk_text 0 [] (- 1) 0 False = ([[]], True)"
  by (simp add: chunk_text_def isspace_def)

end
